theory Spec2Isabelle
  imports Complex_Main "HOL-Library.Log_Nat"
begin

section \<open>Python primitives the program relies on\<close>

text \<open>
  The exceptions that the modelled code can raise. A function that can raise returns
  \<open>py_error + 'a\<close>, with \<open>Inl\<close> for the exception.
\<close>

datatype py_error = ZeroDivisionError | OverflowError | IndexError | ValueError

text \<open>
  \<open>xs[i]\<close> on a Python list: an index from \<open>-len(xs)\<close> up to \<open>-1\<close> counts from the end,
  anything outside \<open>-len(xs) .. len(xs) - 1\<close> raises IndexError.
\<close>

definition py_getitem :: "'a list \<Rightarrow> int \<Rightarrow> py_error + 'a" where
  "py_getitem xs i =
     (if 0 \<le> i \<and> i < int (length xs) then Inr (xs ! nat i)
      else if - int (length xs) \<le> i \<and> i < 0 then Inr (xs ! nat (int (length xs) + i))
      else Inl IndexError)"

text \<open>
  \<open>int(v)\<close> on a finite float: truncation toward zero.
\<close>

definition py_int :: "'a::floor_ceiling \<Rightarrow> int" where
  "py_int v = (if 0 \<le> v then \<lfloor>v\<rfloor> else \<lceil>v\<rceil>)"

subsection \<open>True division of two integers\<close>

text \<open>
  \<open>a / b\<close> on two Python integers raises ZeroDivisionError when \<open>b = 0\<close>; otherwise it is
  the binary64 number nearest to the exact quotient (ties to the even significand), and
  OverflowError when that rounding leaves the binary64 range. The finite binary64 numbers
  are modelled by their rational values: 53 significant bits, the quantum never below
  \<open>2 powi - 1074\<close>, magnitudes below \<open>2 ^ 1024\<close> (\<open>round_double\<close> is \<open>None\<close> when the
  rounded magnitude reaches that limit).
\<close>

definition round_half_even :: "rat \<Rightarrow> int" where
  "round_half_even q =
     (let f = \<lfloor>q\<rfloor>; d = q - of_int f
      in if d < 1 / 2 then f
         else if 1 / 2 < d then f + 1
         else if even f then f else f + 1)"

text \<open>For \<open>0 < q\<close>: the integer \<open>e\<close> with \<open>2 powi e \<le> q < 2 powi (e + 1)\<close>.\<close>

definition floor_log2 :: "rat \<Rightarrow> int" where
  "floor_log2 q = (if 1 \<le> q then bitlen \<lfloor>q\<rfloor> - 1 else - bitlen (\<lceil>1 / q\<rceil> - 1))"

definition binary64_limit :: rat where
  "binary64_limit = 2 ^ 1024"

definition round_double :: "rat \<Rightarrow> rat option" where
  "round_double q =
     (if q = 0 then Some 0
      else let a = \<bar>q\<bar>;
               u = 2 powi (max (floor_log2 a - 52) (- 1074));
               v = of_int (round_half_even (a / u)) * u
           in if binary64_limit \<le> v then None else Some (sgn q * v))"

definition py_truediv :: "int \<Rightarrow> int \<Rightarrow> py_error + rat" where
  "py_truediv a b =
     (if b = 0 then Inl ZeroDivisionError
      else case round_double (of_int a / of_int b) of
             None \<Rightarrow> Inl OverflowError
           | Some v \<Rightarrow> Inr v)"

section \<open>pixel.py\<close>

text \<open>
  Class \<open>Pixel\<close>: the fields \<open>r\<close>, \<open>g\<close>, \<open>b\<close> and \<open>hit_count\<close> are Python integers
  (unbounded). The fields are called \<open>pixel_r\<close>, \<open>pixel_g\<close>, \<open>pixel_b\<close> here so that the
  one-letter names stay free for variables. \<open>Pixel\<close> is the constructor with its default
  arguments.
\<close>

record pixel =
  pixel_r :: int
  pixel_g :: int
  pixel_b :: int
  hit_count :: int

definition Pixel :: pixel where
  "Pixel = \<lparr>pixel_r = 0, pixel_g = 0, pixel_b = 0, hit_count = 0\<rparr>"

type_synonym color = "int \<times> int \<times> int"

text \<open>
  The expression of lines 26 to 28 of pixel.py, once per channel:
  \<open>int((old * hit_count + new * weight) / (hit_count + weight))\<close>.
\<close>

definition mix_channel :: "int \<Rightarrow> int \<Rightarrow> int \<Rightarrow> int \<Rightarrow> py_error + int" where
  "mix_channel old hc new weight =
     (case py_truediv (old * hc + new * weight) (hc + weight) of
        Inl e \<Rightarrow> Inl e
      | Inr v \<Rightarrow> Inr (py_int v))"

text \<open>
  \<open>Pixel.mix_color\<close>: the three channels are computed in the order r, g, b, each from the
  hit count before the call, and \<open>hit_count\<close> is incremented last. The first exception
  ends the call; the model then returns the exception only.
\<close>

definition mix_color :: "pixel \<Rightarrow> color \<Rightarrow> int \<Rightarrow> py_error + pixel" where
  "mix_color p c weight =
     (case c of (c0, c1, c2) \<Rightarrow>
        (case mix_channel (pixel_r p) (hit_count p) c0 weight of
           Inl e \<Rightarrow> Inl e
         | Inr r' \<Rightarrow>
        (case mix_channel (pixel_g p) (hit_count p) c1 weight of
           Inl e \<Rightarrow> Inl e
         | Inr g' \<Rightarrow>
        (case mix_channel (pixel_b p) (hit_count p) c2 weight of
           Inl e \<Rightarrow> Inl e
         | Inr b' \<Rightarrow>
             Inr \<lparr>pixel_r = r', pixel_g = g', pixel_b = b',
                  hit_count = hit_count p + 1\<rparr>))))"

text \<open>
  A sequence of \<open>mix_color\<close> calls on one pixel with the default weight 1, as \<open>add_hit\<close>
  issues them; the first exception ends the sequence.
\<close>

fun mix_calls :: "pixel \<Rightarrow> color list \<Rightarrow> py_error + pixel" where
  "mix_calls p [] = Inr p"
| "mix_calls p (c # cs) =
     (case mix_color p c 1 of
        Inl e \<Rightarrow> Inl e
      | Inr p' \<Rightarrow> mix_calls p' cs)"

definition channel_ok :: "int \<Rightarrow> bool" where
  "channel_ok v \<longleftrightarrow> 0 \<le> v \<and> v \<le> 255"

definition color_ok :: "color \<Rightarrow> bool" where
  "color_ok c \<longleftrightarrow> channel_ok (fst c) \<and> channel_ok (fst (snd c)) \<and> channel_ok (snd (snd c))"

definition pixel_ok :: "pixel \<Rightarrow> bool" where
  "pixel_ok p \<longleftrightarrow> channel_ok (pixel_r p) \<and> channel_ok (pixel_g p) \<and> channel_ok (pixel_b p)"

section \<open>fractal_image.py\<close>

text \<open>
  Class \<open>FractalImage\<close>: \<open>width\<close>, \<open>height\<close> and \<open>data\<close>, a list of rows of pixels. The
  constructor builds every row and every pixel afresh (nested comprehensions), so no two
  cells share a pixel object and an in-place update of one cell is a functional update
  of that cell. \<open>range(n)\<close> is empty for \<open>n \<le> 0\<close>, which is \<open>nat n\<close> repetitions. The lock
  has no effect on a single thread of control and is not part of the state.
\<close>

record fractal_image =
  img_width :: int
  img_height :: int
  img_data :: "pixel list list"

definition FractalImage :: "int \<Rightarrow> int \<Rightarrow> fractal_image" where
  "FractalImage w h =
     \<lparr>img_width = w, img_height = h,
      img_data = replicate (nat h) (replicate (nat w) Pixel)\<rparr>"

definition contains :: "fractal_image \<Rightarrow> int \<Rightarrow> int \<Rightarrow> bool" where
  "contains img x y \<longleftrightarrow> (0 \<le> x \<and> x < img_width img) \<and> (0 \<le> y \<and> y < img_height img)"

text \<open>
  \<open>add_hit\<close>: \<open>self.data[y][x].mix_color(color)\<close> under the bounds check; the weight is
  the default 1.
\<close>

definition add_hit :: "fractal_image \<Rightarrow> int \<Rightarrow> int \<Rightarrow> color \<Rightarrow> py_error + fractal_image" where
  "add_hit img x y c =
     (if contains img x y then
        (case py_getitem (img_data img) y of
           Inl e \<Rightarrow> Inl e
         | Inr row \<Rightarrow>
        (case py_getitem row x of
           Inl e \<Rightarrow> Inl e
         | Inr p \<Rightarrow>
        (case mix_color p c 1 of
           Inl e \<Rightarrow> Inl e
         | Inr p' \<Rightarrow>
             Inr (img\<lparr>img_data := (img_data img)[nat y := row[nat x := p']]\<rparr>))))
      else Inr img)"

text \<open>
  The shape the constructor establishes: \<open>height\<close> rows of \<open>width\<close> pixels each.
\<close>

definition well_formed :: "fractal_image \<Rightarrow> bool" where
  "well_formed img \<longleftrightarrow>
     length (img_data img) = nat (img_height img) \<and>
     list_all (\<lambda>row. length row = nat (img_width img)) (img_data img)"

definition pixel_at :: "fractal_image \<Rightarrow> int \<Rightarrow> int \<Rightarrow> pixel" where
  "pixel_at img x y = img_data img ! nat y ! nat x"

section \<open>Python floats\<close>

text \<open>
  A Python float is a binary64 number. A finite one is modelled by its rational value
  (the two zeros are one value here: the program never tells them apart, since dividing
  by either raises, \<open>int()\<close> of either is 0 and they compare equal), the others are the
  two infinities and NaN. \<open>round_double\<close> above is the rounding to nearest, ties to even;
  the arithmetic operators round the exact result with it and overflow to an infinity
  without raising. \<open>is_binary64\<close> says that a rational is the value of a float.
\<close>

datatype pyfloat = Fin rat | PInf | NInf | NaN

definition to_float :: "rat \<Rightarrow> pyfloat" where
  "to_float q =
     (case round_double q of
        Some v \<Rightarrow> Fin v
      | None \<Rightarrow> if 0 < q then PInf else NInf)"

definition is_binary64 :: "rat \<Rightarrow> bool" where
  "is_binary64 q \<longleftrightarrow> round_double q = Some q"

fun finite_float :: "pyfloat \<Rightarrow> bool" where
  "finite_float (Fin q) = is_binary64 q"
| "finite_float PInf = False"
| "finite_float NInf = False"
| "finite_float NaN = False"

fun negative :: "pyfloat \<Rightarrow> bool" where
  "negative (Fin q) = (q < 0)"
| "negative PInf = False"
| "negative NInf = True"
| "negative NaN = False"

definition infinity :: "bool \<Rightarrow> pyfloat" where
  "infinity neg = (if neg then NInf else PInf)"

fun f_neg :: "pyfloat \<Rightarrow> pyfloat" where
  "f_neg (Fin q) = Fin (- q)"
| "f_neg PInf = NInf"
| "f_neg NInf = PInf"
| "f_neg NaN = NaN"

fun f_abs :: "pyfloat \<Rightarrow> pyfloat" where
  "f_abs (Fin q) = Fin \<bar>q\<bar>"
| "f_abs PInf = PInf"
| "f_abs NInf = PInf"
| "f_abs NaN = NaN"

fun f_add :: "pyfloat \<Rightarrow> pyfloat \<Rightarrow> pyfloat" where
  "f_add (Fin a) (Fin b) = to_float (a + b)"
| "f_add NaN b = NaN"
| "f_add a NaN = NaN"
| "f_add PInf NInf = NaN"
| "f_add NInf PInf = NaN"
| "f_add PInf b = PInf"
| "f_add a PInf = PInf"
| "f_add NInf b = NInf"
| "f_add a NInf = NInf"

definition f_sub :: "pyfloat \<Rightarrow> pyfloat \<Rightarrow> pyfloat" where
  "f_sub a b = f_add a (f_neg b)"

fun f_mul :: "pyfloat \<Rightarrow> pyfloat \<Rightarrow> pyfloat" where
  "f_mul (Fin a) (Fin b) = to_float (a * b)"
| "f_mul NaN b = NaN"
| "f_mul a NaN = NaN"
| "f_mul (Fin a) b = (if a = 0 then NaN else infinity ((a < 0) \<noteq> negative b))"
| "f_mul a (Fin b) = (if b = 0 then NaN else infinity (negative a \<noteq> (b < 0)))"
| "f_mul a b = infinity (negative a \<noteq> negative b)"

text \<open>
  \<open>a / b\<close> on floats: a zero divisor raises ZeroDivisionError whatever the dividend is;
  nothing else raises.
\<close>

fun f_div :: "pyfloat \<Rightarrow> pyfloat \<Rightarrow> py_error + pyfloat" where
  "f_div a (Fin b) =
     (if b = 0 then Inl ZeroDivisionError
      else case a of
             Fin x \<Rightarrow> Inr (to_float (x / b))
           | NaN \<Rightarrow> Inr NaN
           | _ \<Rightarrow> Inr (infinity (negative a \<noteq> (b < 0))))"
| "f_div a NaN = Inr NaN"
| "f_div (Fin x) b = Inr (Fin 0)"
| "f_div NaN b = Inr NaN"
| "f_div a b = Inr NaN"

text \<open>Comparison \<open>a <= b\<close>; every comparison with NaN is false.\<close>

fun f_le :: "pyfloat \<Rightarrow> pyfloat \<Rightarrow> bool" where
  "f_le (Fin a) (Fin b) = (a \<le> b)"
| "f_le NaN b = False"
| "f_le a NaN = False"
| "f_le NInf b = True"
| "f_le a PInf = True"
| "f_le a b = False"

text \<open>
  \<open>int(v)\<close> on a float truncates toward zero; it raises OverflowError on an infinity and
  ValueError on NaN. An integer operand of a float operator is converted to the nearest
  float first, which raises OverflowError when the integer is too large.
\<close>

fun int_of_float :: "pyfloat \<Rightarrow> py_error + int" where
  "int_of_float (Fin q) = Inr (py_int q)"
| "int_of_float NaN = Inl ValueError"
| "int_of_float v = Inl OverflowError"

definition float_of_int :: "int \<Rightarrow> py_error + pyfloat" where
  "float_of_int i =
     (case round_double (of_int i) of
        None \<Rightarrow> Inl OverflowError
      | Some v \<Rightarrow> Inr (Fin v))"

subsection \<open>The C library\<close>

text \<open>
  \<open>math.sin\<close>, \<open>math.cos\<close> and the float power call the \<open>sin\<close>, \<open>cos\<close> and \<open>pow\<close> of the
  platform's C library, whose results on finite arguments differ between platforms in the
  last bit. They are a parameter of the model: \<open>lib_sin\<close> and \<open>lib_cos\<close> give the value
  returned for a finite argument, \<open>lib_sqr x\<close> the value of \<open>pow(x, 2.0)\<close> or \<open>None\<close> when it
  overflows. What Python does around these calls is fixed: \<open>math.sin\<close> and \<open>math.cos\<close>
  raise ValueError on an infinity and return NaN on NaN; \<open>x ** 2\<close> returns \<open>0.0\<close> for a
  zero and \<open>1.0\<close> for \<open>1.0\<close> and \<open>-1.0\<close> without calling \<open>pow\<close>, calls it on the magnitude of
  any other finite \<open>x\<close> and raises OverflowError when it overflows, and returns \<open>inf\<close> for
  an infinity and NaN for NaN.
\<close>

record libm =
  lib_sin :: "rat \<Rightarrow> rat"
  lib_cos :: "rat \<Rightarrow> rat"
  lib_sqr :: "rat \<Rightarrow> rat option"

fun py_sin :: "libm \<Rightarrow> pyfloat \<Rightarrow> py_error + pyfloat" where
  "py_sin lm (Fin q) = Inr (Fin (lib_sin lm q))"
| "py_sin lm NaN = Inr NaN"
| "py_sin lm v = Inl ValueError"

fun py_cos :: "libm \<Rightarrow> pyfloat \<Rightarrow> py_error + pyfloat" where
  "py_cos lm (Fin q) = Inr (Fin (lib_cos lm q))"
| "py_cos lm NaN = Inr NaN"
| "py_cos lm v = Inl ValueError"

fun py_pow2 :: "libm \<Rightarrow> pyfloat \<Rightarrow> py_error + pyfloat" where
  "py_pow2 lm (Fin q) =
     (if q = 0 then Inr (Fin 0)
      else if \<bar>q\<bar> = 1 then Inr (Fin 1)
      else case lib_sqr lm \<bar>q\<bar> of
             None \<Rightarrow> Inl OverflowError
           | Some v \<Rightarrow> Inr (Fin v))"
| "py_pow2 lm NaN = Inr NaN"
| "py_pow2 lm v = Inr PInf"

text \<open>
  A library for the examples: its square is the correctly rounded one, its sine and
  cosine are the real functions rounded from 1200 binary digits.
\<close>

definition binary64_of_real :: "real \<Rightarrow> rat" where
  "binary64_of_real x =
     (case round_double (of_int \<lfloor>x * 2 ^ 1200\<rfloor> / 2 ^ 1200) of
        Some v \<Rightarrow> v
      | None \<Rightarrow> 0)"

definition sample_libm :: libm where
  "sample_libm =
     \<lparr>lib_sin = (\<lambda>q. binary64_of_real (sin (of_rat q))),
      lib_cos = (\<lambda>q. binary64_of_real (cos (of_rat q))),
      lib_sqr = (\<lambda>q. round_double (q * q))\<rparr>"

text \<open>\<open>math.pi\<close>, the float nearest to the number: \<open>0x1.921fb54442d18p+1\<close>.\<close>

definition math_pi :: rat where
  "math_pi = 884279719003555 / 2 ^ 48"

section \<open>point.py, rect.py\<close>

text \<open>
  The coordinates of a point and the fields of a rectangle are Python floats. (\<open>main\<close>
  passes the integers 3 for the width and height of the world, and \<open>spherical\<close> builds
  \<open>Point(0, 0)\<close>; in every operation of the program such an integer acts as the float of
  the same value.)
\<close>

record point =
  point_x :: pyfloat
  point_y :: pyfloat

definition Point :: "pyfloat \<Rightarrow> pyfloat \<Rightarrow> point" where
  "Point a b = \<lparr>point_x = a, point_y = b\<rparr>"

record rect =
  rect_x :: pyfloat
  rect_y :: pyfloat
  rect_width :: pyfloat
  rect_height :: pyfloat

definition Rect :: "pyfloat \<Rightarrow> pyfloat \<Rightarrow> pyfloat \<Rightarrow> pyfloat \<Rightarrow> rect" where
  "Rect a b w h = \<lparr>rect_x = a, rect_y = b, rect_width = w, rect_height = h\<rparr>"

text \<open>\<open>Rect.contains\<close>, which no function of the program calls.\<close>

definition rect_contains :: "rect \<Rightarrow> point \<Rightarrow> bool" where
  "rect_contains r p \<longleftrightarrow>
     (f_le (rect_x r) (point_x p) \<and> f_le (point_x p) (f_add (rect_x r) (rect_width r))) \<and>
     (f_le (rect_y r) (point_y p) \<and> f_le (point_y p) (f_add (rect_y r) (rect_height r)))"

definition finite_point :: "point \<Rightarrow> bool" where
  "finite_point p \<longleftrightarrow> finite_float (point_x p) \<and> finite_float (point_y p)"

section \<open>main.py: the transformations\<close>

text \<open>
  Each transformation is a callable on a point that returns a point or raises. \<open>linear\<close>
  of main.py is called \<open>linear_transformation\<close>, the short name being taken by linear
  maps. Calls are made in the order of the source: in \<open>fish\<close> the sine of \<open>y\<close> comes
  first.
\<close>

type_synonym transformation = "point \<Rightarrow> py_error + point"

definition spherical :: "libm \<Rightarrow> transformation" where
  "spherical lm p =
     (case py_pow2 lm (point_x p) of
        Inl e \<Rightarrow> Inl e
      | Inr a \<Rightarrow>
     (case py_pow2 lm (point_y p) of
        Inl e \<Rightarrow> Inl e
      | Inr b \<Rightarrow>
          (let r2 = f_add a b
           in if r2 = Fin 0 then Inr (Point (Fin 0) (Fin 0))
              else (case f_div (point_x p) r2 of
                      Inl e \<Rightarrow> Inl e
                    | Inr u \<Rightarrow>
                   (case f_div (point_y p) r2 of
                      Inl e \<Rightarrow> Inl e
                    | Inr v \<Rightarrow> Inr (Point u v))))))"

definition sinusoidal :: "libm \<Rightarrow> transformation" where
  "sinusoidal lm p =
     (case py_sin lm (point_x p) of
        Inl e \<Rightarrow> Inl e
      | Inr u \<Rightarrow>
     (case py_sin lm (point_y p) of
        Inl e \<Rightarrow> Inl e
      | Inr v \<Rightarrow> Inr (Point u v)))"

definition diamond :: transformation where
  "diamond p = Inr (Point (f_abs (point_x p)) (f_abs (point_y p)))"

definition fish :: "libm \<Rightarrow> transformation" where
  "fish lm p =
     (case py_sin lm (point_y p) of
        Inl e \<Rightarrow> Inl e
      | Inr sy \<Rightarrow>
     (case py_sin lm (point_x p) of
        Inl e \<Rightarrow> Inl e
      | Inr sx \<Rightarrow> Inr (Point (f_add (point_x p) sy) (f_add (point_y p) sx))))"

definition swirl :: "libm \<Rightarrow> transformation" where
  "swirl lm p =
     (case py_pow2 lm (point_x p) of
        Inl e \<Rightarrow> Inl e
      | Inr a \<Rightarrow>
     (case py_pow2 lm (point_y p) of
        Inl e \<Rightarrow> Inl e
      | Inr b \<Rightarrow>
          (let r2 = f_add a b
           in (case py_sin lm r2 of
                 Inl e \<Rightarrow> Inl e
               | Inr s \<Rightarrow>
              (case py_cos lm r2 of
                 Inl e \<Rightarrow> Inl e
               | Inr c \<Rightarrow>
                   Inr (Point (f_sub (f_mul (point_x p) s) (f_mul (point_y p) c))
                              (f_add (f_mul (point_x p) c) (f_mul (point_y p) s))))))))"

definition linear_transformation :: transformation where
  "linear_transformation p = Inr p"

definition TRANSFORMATIONS :: "libm \<Rightarrow> transformation list" where
  "TRANSFORMATIONS lm =
     [spherical lm, sinusoidal lm, swirl lm, linear_transformation, diamond, fish lm]"

section \<open>main.py: random draws\<close>

text \<open>
  The module \<open>random\<close> is state outside the repository. Its state is modelled by the two
  sequences of values it is going to hand out and the positions reached in them.
  \<open>random.random()\<close> returns \<open>k / 2 ^ 53\<close> for an integer \<open>0 \<le> k < 2 ^ 53\<close>, taken from
  \<open>rng_words\<close>; \<open>rng_ints\<close> feed the index choice of \<open>random.choice\<close>, which for a sequence
  of length \<open>n\<close> is some index below \<open>n\<close> (here the next integer draw reduced modulo \<open>n\<close>)
  and raises IndexError on an empty sequence. \<open>random.uniform(a, b)\<close> is
  \<open>a + (b - a) * random()\<close>.
\<close>

record rng =
  rng_words :: "nat \<Rightarrow> nat"
  rng_ints :: "nat \<Rightarrow> nat"
  rng_fpos :: nat
  rng_ipos :: nat

definition random_random :: "rng \<Rightarrow> pyfloat \<times> rng" where
  "random_random g =
     (Fin (of_nat (rng_words g (rng_fpos g) mod 2 ^ 53) / 2 ^ 53),
      g\<lparr>rng_fpos := Suc (rng_fpos g)\<rparr>)"

definition random_uniform :: "pyfloat \<Rightarrow> pyfloat \<Rightarrow> rng \<Rightarrow> pyfloat \<times> rng" where
  "random_uniform a b g =
     (case random_random g of (u, g') \<Rightarrow> (f_add a (f_mul (f_sub b a) u), g'))"

definition random_choice :: "'a list \<Rightarrow> rng \<Rightarrow> py_error + ('a \<times> rng)" where
  "random_choice xs g =
     (if xs = [] then Inl IndexError
      else Inr (xs ! (rng_ints g (rng_ipos g) mod length xs),
                g\<lparr>rng_ipos := Suc (rng_ipos g)\<rparr>))"

definition random_point_in_rect :: "rect \<Rightarrow> rng \<Rightarrow> point \<times> rng" where
  "random_point_in_rect r g =
     (case random_uniform (rect_x r) (f_add (rect_x r) (rect_width r)) g of (a, g1) \<Rightarrow>
      case random_uniform (rect_y r) (f_add (rect_y r) (rect_height r)) g1 of (b, g2) \<Rightarrow>
        (Point a b, g2))"


text \<open>
  The same expression on the float that was drawn, with the rounding of the product, and
  the whole tuple of line 136: three draws, each converted before the next is made.
\<close>

definition draw_channel :: "pyfloat \<Rightarrow> py_error + int" where
  "draw_channel u = int_of_float (f_mul (Fin 255) u)"

definition random_color :: "rng \<Rightarrow> py_error + (color \<times> rng)" where
  "random_color g =
     (case random_random g of (u0, g0) \<Rightarrow>
     (case draw_channel u0 of
        Inl e \<Rightarrow> Inl e
      | Inr c0 \<Rightarrow>
     (case random_random g0 of (u1, g1) \<Rightarrow>
     (case draw_channel u1 of
        Inl e \<Rightarrow> Inl e
      | Inr c1 \<Rightarrow>
     (case random_random g1 of (u2, g2) \<Rightarrow>
     (case draw_channel u2 of
        Inl e \<Rightarrow> Inl e
      | Inr c2 \<Rightarrow> Inr ((c0, c1, c2), g2)))))))"

section \<open>main.py: the sampling engine\<close>

text \<open>
  \<open>map_to_pixel\<close>: \<open>x\<close> is computed first, then \<open>y\<close>, each as
  \<open>int((coordinate - origin) / extent * size)\<close> in float arithmetic, the integer size
  being converted to a float for the product. A world rectangle of width or height 0
  makes the division raise, a product that is infinite or NaN makes \<open>int()\<close> raise.
\<close>

definition pixel_index :: "pyfloat \<Rightarrow> pyfloat \<Rightarrow> pyfloat \<Rightarrow> int \<Rightarrow> py_error + int" where
  "pixel_index coordinate origin extent n =
     (case f_div (f_sub coordinate origin) extent of
        Inl e \<Rightarrow> Inl e
      | Inr q \<Rightarrow>
     (case float_of_int n of
        Inl e \<Rightarrow> Inl e
      | Inr fn \<Rightarrow> int_of_float (f_mul q fn)))"

definition map_to_pixel :: "rect \<Rightarrow> point \<Rightarrow> fractal_image \<Rightarrow> py_error + (int \<times> int) option" where
  "map_to_pixel r p img =
     (case pixel_index (point_x p) (rect_x r) (rect_width r) (img_width img) of
        Inl e \<Rightarrow> Inl e
      | Inr x \<Rightarrow>
     (case pixel_index (point_y p) (rect_y r) (rect_height r) (img_height img) of
        Inl e \<Rightarrow> Inl e
      | Inr y \<Rightarrow> Inr (if contains img x y then Some (x, y) else None)))"

text \<open>
  The body of the loop \<open>for s in range(symmetry)\<close> (lines 128 to 137) for one value of
  \<open>s\<close>: the angle \<open>2 * pi * s / symmetry\<close>, the rotated point, its pixel, and on a pixel
  inside the image a colour and the hit. A tuple of two coordinates is always true in
  \<open>if pixel_coords\<close>; only \<open>None\<close> is false.
\<close>

definition rotation_angle :: "int \<Rightarrow> int \<Rightarrow> py_error + pyfloat" where
  "rotation_angle s symmetry =
     (case float_of_int s of
        Inl e \<Rightarrow> Inl e
      | Inr fs \<Rightarrow>
     (case float_of_int symmetry of
        Inl e \<Rightarrow> Inl e
      | Inr fn \<Rightarrow> f_div (f_mul (f_mul (Fin 2) (Fin math_pi)) fs) fn))"

definition rotated_point :: "libm \<Rightarrow> point \<Rightarrow> pyfloat \<Rightarrow> py_error + point" where
  "rotated_point lm p theta =
     (case py_cos lm theta of
        Inl e \<Rightarrow> Inl e
      | Inr c \<Rightarrow>
     (case py_sin lm theta of
        Inl e \<Rightarrow> Inl e
      | Inr s \<Rightarrow>
          Inr (Point (f_sub (f_mul (point_x p) c) (f_mul (point_y p) s))
                     (f_add (f_mul (point_x p) s) (f_mul (point_y p) c)))))"

definition plot :: "fractal_image \<Rightarrow> rect \<Rightarrow> point \<Rightarrow> rng \<Rightarrow> py_error + (fractal_image \<times> rng)" where
  "plot img world q g =
     (case map_to_pixel world q img of
        Inl e \<Rightarrow> Inl e
      | Inr None \<Rightarrow> Inr (img, g)
      | Inr (Some (px, py)) \<Rightarrow>
          (case random_color g of
             Inl e \<Rightarrow> Inl e
           | Inr (c, g') \<Rightarrow>
               (case add_hit img px py c of
                  Inl e \<Rightarrow> Inl e
                | Inr img' \<Rightarrow> Inr (img', g'))))"

fun symmetry_loop ::
  "libm \<Rightarrow> fractal_image \<Rightarrow> rect \<Rightarrow> point \<Rightarrow> int \<Rightarrow> int list \<Rightarrow> rng
     \<Rightarrow> py_error + (fractal_image \<times> rng)" where
  "symmetry_loop lm img world p symmetry [] g = Inr (img, g)"
| "symmetry_loop lm img world p symmetry (s # ss) g =
     (case rotation_angle s symmetry of
        Inl e \<Rightarrow> Inl e
      | Inr theta \<Rightarrow>
     (case rotated_point lm p theta of
        Inl e \<Rightarrow> Inl e
      | Inr q \<Rightarrow>
     (case plot img world q g of
        Inl e \<Rightarrow> Inl e
      | Inr (img', g') \<Rightarrow> symmetry_loop lm img' world p symmetry ss g')))"

text \<open>
  The loop \<open>for _ in range(iter_per_sample)\<close>, by the number of iterations still to run:
  choose a transformation, apply it, plot the rotational copies of the new point.
\<close>

fun iterate ::
  "libm \<Rightarrow> rect \<Rightarrow> transformation list \<Rightarrow> int \<Rightarrow> nat \<Rightarrow> fractal_image \<Rightarrow> point \<Rightarrow> rng
     \<Rightarrow> py_error + (fractal_image \<times> rng)" where
  "iterate lm world transformations symmetry 0 img p g = Inr (img, g)"
| "iterate lm world transformations symmetry (Suc k) img p g =
     (case random_choice transformations g of
        Inl e \<Rightarrow> Inl e
      | Inr (transform, g1) \<Rightarrow>
     (case transform p of
        Inl e \<Rightarrow> Inl e
      | Inr p' \<Rightarrow>
     (case symmetry_loop lm img world p' symmetry [0 .. symmetry - 1] g1 of
        Inl e \<Rightarrow> Inl e
      | Inr (img', g2) \<Rightarrow> iterate lm world transformations symmetry k img' p' g2)))"

text \<open>The loop \<open>for _ in range(samples)\<close>, by the number of samples still to run.\<close>

fun sample_loop ::
  "libm \<Rightarrow> rect \<Rightarrow> transformation list \<Rightarrow> int \<Rightarrow> int \<Rightarrow> nat \<Rightarrow> fractal_image \<Rightarrow> rng
     \<Rightarrow> py_error + (fractal_image \<times> rng)" where
  "sample_loop lm world transformations iter_per_sample symmetry 0 img g = Inr (img, g)"
| "sample_loop lm world transformations iter_per_sample symmetry (Suc n) img g =
     (case random_point_in_rect world g of (p, g1) \<Rightarrow>
     (case iterate lm world transformations symmetry (nat iter_per_sample) img p g1 of
        Inl e \<Rightarrow> Inl e
      | Inr (img', g2) \<Rightarrow>
          sample_loop lm world transformations iter_per_sample symmetry n img' g2))"

definition generate_fractal ::
  "libm \<Rightarrow> fractal_image \<Rightarrow> rect \<Rightarrow> transformation list \<Rightarrow> int \<Rightarrow> int \<Rightarrow> int \<Rightarrow> rng
     \<Rightarrow> py_error + (fractal_image \<times> rng)" where
  "generate_fractal lm img world transformations samples iter_per_sample symmetry g =
     sample_loop lm world transformations iter_per_sample symmetry (nat samples) img g"

subsection \<open>The sampling loop without the rotation step\<close>

text \<open>
  The comparison program of claim C10: the same two loops, with the loop over
  \<open>range(symmetry)\<close> and the rotation removed, so that each point of the trajectory is
  mapped and plotted as it is. It calls neither \<open>cos\<close> nor \<open>sin\<close>.
\<close>

fun iterate_unrotated ::
  "rect \<Rightarrow> transformation list \<Rightarrow> nat \<Rightarrow> fractal_image \<Rightarrow> point \<Rightarrow> rng
     \<Rightarrow> py_error + (fractal_image \<times> rng)" where
  "iterate_unrotated world transformations 0 img p g = Inr (img, g)"
| "iterate_unrotated world transformations (Suc k) img p g =
     (case random_choice transformations g of
        Inl e \<Rightarrow> Inl e
      | Inr (transform, g1) \<Rightarrow>
     (case transform p of
        Inl e \<Rightarrow> Inl e
      | Inr p' \<Rightarrow>
     (case plot img world p' g1 of
        Inl e \<Rightarrow> Inl e
      | Inr (img', g2) \<Rightarrow> iterate_unrotated world transformations k img' p' g2)))"

fun sample_loop_unrotated ::
  "rect \<Rightarrow> transformation list \<Rightarrow> int \<Rightarrow> nat \<Rightarrow> fractal_image \<Rightarrow> rng
     \<Rightarrow> py_error + (fractal_image \<times> rng)" where
  "sample_loop_unrotated world transformations iter_per_sample 0 img g = Inr (img, g)"
| "sample_loop_unrotated world transformations iter_per_sample (Suc n) img g =
     (case random_point_in_rect world g of (p, g1) \<Rightarrow>
     (case iterate_unrotated world transformations (nat iter_per_sample) img p g1 of
        Inl e \<Rightarrow> Inl e
      | Inr (img', g2) \<Rightarrow>
          sample_loop_unrotated world transformations iter_per_sample n img' g2))"

definition generate_fractal_unrotated ::
  "fractal_image \<Rightarrow> rect \<Rightarrow> transformation list \<Rightarrow> int \<Rightarrow> int \<Rightarrow> rng
     \<Rightarrow> py_error + (fractal_image \<times> rng)" where
  "generate_fractal_unrotated img world transformations samples iter_per_sample g =
     sample_loop_unrotated world transformations iter_per_sample (nat samples) img g"

text \<open>
  The conditions under which the two are compared: every transformation of the list
  returns a finite point, or raises, on a finite point; and the world rectangle yields
  finite start points.
\<close>

definition preserves_finite :: "transformation \<Rightarrow> bool" where
  "preserves_finite t \<longleftrightarrow>
     (\<forall>p. finite_point p \<longrightarrow> (case t p of Inl e \<Rightarrow> True | Inr p' \<Rightarrow> finite_point p'))"

definition start_points_finite :: "rect \<Rightarrow> bool" where
  "start_points_finite world \<longleftrightarrow> (\<forall>g. finite_point (fst (random_point_in_rect world g)))"

section \<open>main.py: the entry point\<close>

text \<open>
  \<open>main\<close> builds the world rectangle \<open>Rect(-1.5, -1.5, 3, 3)\<close> (line 248) and passes
  \<open>symmetry = 1\<close> to the sampling engine, explicitly through the parallel driver and by
  default otherwise.
\<close>

definition main_world :: rect where
  "main_world = Rect (Fin (- (3 / 2))) (Fin (- (3 / 2))) (Fin 3) (Fin 3)"

section \<open>Properties of the rounding\<close>

lemma round_half_even_cases:
  "round_half_even q = \<lfloor>q\<rfloor> \<or> round_half_even q = \<lfloor>q\<rfloor> + 1"
  by (simp add: round_half_even_def Let_def)

lemma round_half_even_of_int [simp]: "round_half_even (of_int n) = n"
  by (simp add: round_half_even_def Let_def)

lemma round_half_even_ge: "of_int n \<le> q \<Longrightarrow> n \<le> round_half_even q"
proof -
  assume "of_int n \<le> q"
  then have "n \<le> \<lfloor>q\<rfloor>" by (simp add: le_floor_iff)
  with round_half_even_cases [of q] show ?thesis by auto
qed

lemma round_half_even_le:
  assumes "q \<le> of_int n"
  shows "round_half_even q \<le> n"
proof (cases "q = of_int n")
  case True
  then show ?thesis by simp
next
  case False
  with assms have "q < of_int n" by simp
  then have "\<lfloor>q\<rfloor> < n" by (simp add: floor_less_iff)
  with round_half_even_cases [of q] show ?thesis by auto
qed

lemma round_half_even_less:
  assumes "q < of_int n - 1 / 2"
  shows "round_half_even q < n"
proof -
  from assms have "q < of_int n" by simp
  then have f: "\<lfloor>q\<rfloor> < n" by (simp add: floor_less_iff)
  show ?thesis
  proof (cases "\<lfloor>q\<rfloor> = n - 1")
    case True
    with assms have "q - of_int \<lfloor>q\<rfloor> < 1 / 2" by simp
    then have "round_half_even q = \<lfloor>q\<rfloor>"
      by (simp add: round_half_even_def Let_def)
    with f show ?thesis by simp
  next
    case False
    with f have "\<lfloor>q\<rfloor> + 1 < n" by simp
    with round_half_even_cases [of q] show ?thesis by auto
  qed
qed

lemma floor_log2_bounds:
  assumes "0 < q"
  shows "2 powi (floor_log2 q) \<le> q" and "q < 2 powi (floor_log2 q + 1)"
proof -
  have "2 powi (floor_log2 q) \<le> q \<and> q < 2 powi (floor_log2 q + 1)"
  proof (cases "1 \<le> q")
    case True
    define m where "m = \<lfloor>q\<rfloor>"
    from True have m: "0 < m" by (simp add: m_def)
    from bitlen_bounds [OF m] have b: "2 ^ nat (bitlen m - 1) \<le> m" "m < 2 ^ nat (bitlen m)"
      by simp_all
    from m have bl: "1 \<le> bitlen m" by (simp add: bitlen_alt_def)
    have e: "floor_log2 q = bitlen m - 1" using True by (simp add: floor_log2_def m_def)
    have "(of_int (2 ^ nat (bitlen m - 1)) :: rat) \<le> of_int m"
      using b(1) by (simp only: of_int_le_iff)
    also have "\<dots> \<le> q" by (simp add: m_def)
    finally have lo: "2 powi (floor_log2 q) \<le> q"
      using bl by (simp add: e power_int_def)
    have "q < of_int (m + 1)" using floor_correct [of q] by (simp add: m_def)
    also have "(of_int (m + 1) :: rat) \<le> of_int (2 ^ nat (bitlen m))"
      using b(2) by (simp only: of_int_le_iff)
    finally have hi: "q < 2 powi (floor_log2 q + 1)"
      using bl by (simp add: e power_int_def)
    from lo hi show ?thesis ..
  next
    case False
    define c where "c = \<lceil>1 / q\<rceil> - 1"
    define k where "k = bitlen c"
    from False assms have "1 < 1 / q" by (simp add: field_simps)
    then have c: "0 < c" by (simp add: c_def less_ceiling_iff)
    from bitlen_bounds [OF c] have b: "2 ^ nat (k - 1) \<le> c" "c < 2 ^ nat k"
      by (simp_all add: k_def)
    from c have k: "1 \<le> k" by (simp add: k_def bitlen_alt_def)
    have e: "floor_log2 q = - k" using False by (simp add: floor_log2_def c_def k_def)
    have "1 / q \<le> of_int (c + 1)" by (simp add: c_def)
    also have "(of_int (c + 1) :: rat) \<le> of_int (2 ^ nat k)"
      using b(2) by (simp only: of_int_le_iff)
    finally have "1 / q \<le> 2 ^ nat k" by simp
    with assms have lo: "2 powi (floor_log2 q) \<le> q"
      using k by (simp add: e power_int_def field_simps)
    have "(of_int (2 ^ nat (k - 1)) :: rat) \<le> of_int c"
      using b(1) by (simp only: of_int_le_iff)
    also have "(of_int c :: rat) < 1 / q"
      by (simp add: c_def) (metis ceiling_correct diff_less_eq of_int_1 of_int_diff)
    finally have "2 ^ nat (k - 1) < 1 / q" by simp
    with assms have "q < 1 / 2 ^ nat (k - 1)" by (simp add: field_simps)
    moreover have "(2::rat) powi (floor_log2 q + 1) = 1 / 2 ^ nat (k - 1)"
      using k by (cases "k = 1") (simp_all add: e power_int_def field_simps)
    ultimately have hi: "q < 2 powi (floor_log2 q + 1)"
      by (simp only:)
    from lo hi show ?thesis ..
  qed
  then show "2 powi (floor_log2 q) \<le> q" and "q < 2 powi (floor_log2 q + 1)" by simp_all
qed

lemma quantum_inverse:
  assumes "E \<le> 0"
  shows "(2::rat) powi E = 1 / of_int (2 ^ nat (- E))"
  using assms by (cases "E = 0") (simp_all add: power_int_def power_one_over field_simps)

lemma floor_log2_less:
  assumes "0 < q" and "q < 2 ^ n"
  shows "floor_log2 q < int n"
proof (rule ccontr)
  assume "\<not> floor_log2 q < int n"
  then have "(2::rat) powi (int n) \<le> 2 powi (floor_log2 q)"
    by (intro power_int_increasing) simp_all
  also have "\<dots> \<le> q" by (rule floor_log2_bounds(1) [OF assms(1)])
  finally show False using assms(2) by simp
qed

text \<open>The shape of the rounding of a positive number below \<open>2 ^ 53\<close>.\<close>

lemma round_double_small:
  assumes "0 < q" and "q < 2 ^ 53"
  defines "E \<equiv> max (floor_log2 q - 52) (- 1074)"
  defines "K \<equiv> (2::int) ^ nat (- E)"
  defines "v \<equiv> (of_int (round_half_even (q * of_int K)) :: rat) / of_int K"
  shows "E \<le> 0" and "0 < K"
    and "round_double q = (if binary64_limit \<le> v then None else Some v)"
proof -
  from floor_log2_less [OF assms(1), of 53] assms(2) show E: "E \<le> 0"
    by (simp add: E_def)
  show "0 < K" by (simp add: K_def)
  have u: "(2::rat) powi E = 1 / of_int K"
    unfolding K_def by (rule quantum_inverse [OF E])
  have "q / 2 powi max (floor_log2 q - 52) (- 1074) = q * of_int K"
    using u by (simp add: E_def)
  moreover have "r * 2 powi max (floor_log2 q - 52) (- 1074) = r / of_int K" for r :: rat
    using u by (simp add: E_def)
  ultimately show "round_double q = (if binary64_limit \<le> v then None else Some v)"
    using assms(1) by (simp add: round_double_def Let_def v_def)
qed

lemma round_double_bounded:
  assumes "0 \<le> q" and "q \<le> of_int M" and "M < 2 ^ 53"
  shows "\<exists>v. round_double q = Some v \<and> 0 \<le> v \<and> v \<le> of_int M"
proof (cases "q = 0")
  case True
  with assms(2) show ?thesis by (simp add: round_double_def)
next
  case False
  with assms(1) have pos: "0 < q" by simp
  have "(of_int M :: rat) < of_int (2 ^ 53)" using assms(3) by (simp only: of_int_less_iff)
  with assms(2) have lt: "q < 2 ^ 53" by simp
  define E where "E = max (floor_log2 q - 52) (- 1074)"
  define K where "K = (2::int) ^ nat (- E)"
  define v where "v = (of_int (round_half_even (q * of_int K)) :: rat) / of_int K"
  note sm = round_double_small [OF pos lt, folded E_def, folded K_def, folded v_def]
  from sm(2) have Kr: "(0::rat) < of_int K" by simp
  have "of_int 0 \<le> q * of_int K" using pos Kr by simp
  then have "0 \<le> round_half_even (q * of_int K)" by (rule round_half_even_ge)
  then have v0: "0 \<le> v" using Kr by (simp add: v_def)
  have "q * of_int K \<le> of_int (M * K)" using assms(2) Kr by simp
  then have "round_half_even (q * of_int K) \<le> M * K" by (rule round_half_even_le)
  then have "(of_int (round_half_even (q * of_int K)) :: rat) \<le> of_int (M * K)"
    by (simp only: of_int_le_iff)
  then have vM: "v \<le> of_int M" using Kr by (simp add: v_def field_simps)
  have "(of_int M :: rat) < binary64_limit"
    using \<open>(of_int M :: rat) < of_int (2 ^ 53)\<close> by (simp add: binary64_limit_def)
  with vM have "\<not> binary64_limit \<le> v" by simp
  with sm(3) v0 vM show ?thesis by simp
qed

lemma round_double_exact_floor:
  assumes a: "0 \<le> a" "a < 2 ^ 53" and b: "0 < b"
  shows "\<exists>v. round_double (of_int a / of_int b) = Some v \<and> py_int v = a div b"
proof (cases "a = 0")
  case True
  then show ?thesis by (simp add: round_double_def py_int_def)
next
  case False
  define q :: rat where "q = of_int a / of_int b"
  define n where "n = a div b"
  from False a b have pos: "0 < q" by (simp add: q_def)
  have br: "(0::rat) < of_int b" using b by simp
  have qb: "q * of_int b = of_int a" using b by (simp add: q_def)
  have "(of_int a :: rat) < of_int (2 ^ 53)" using a(2) by (simp only: of_int_less_iff)
  then have a53: "(of_int a :: rat) < 2 ^ 53" by simp
  have "q \<le> of_int a"
  proof -
    have "(1::rat) \<le> of_int b" using b by simp
    then have "of_int a / of_int b \<le> (of_int a :: rat) / 1"
      using a(1) by (intro divide_left_mono) simp_all
    then show ?thesis by (simp add: q_def)
  qed
  with a53 have lt: "q < 2 ^ 53" by simp
  have nq: "n = \<lfloor>q\<rfloor>" by (simp add: n_def q_def floor_divide_of_int_eq)
  have n0: "0 \<le> n" using a(1) b by (simp add: n_def pos_imp_zdiv_nonneg_iff)
  have lo: "of_int n \<le> q" by (simp add: nq)
  \<comment> \<open>the quotient stays at least 1 / b below the next integer\<close>
  have gap: "1 \<le> (of_int (n + 1) - q) * of_int b"
  proof -
    have "a mod b < b" using b by simp
    moreover have "b * (a div b) + a mod b = a" by simp
    ultimately have "a + 1 \<le> b * (a div b) + b" by linarith
    then have "a + 1 \<le> (n + 1) * b" by (simp add: n_def algebra_simps)
    then have "(of_int (a + 1) :: rat) \<le> of_int ((n + 1) * b)" by (simp only: of_int_le_iff)
    then show ?thesis using qb by (simp add: algebra_simps)
  qed
  define e where "e = floor_log2 q"
  define E where "E = max (e - 52) (- 1074)"
  define K where "K = (2::int) ^ nat (- E)"
  define v where "v = (of_int (round_half_even (q * of_int K)) :: rat) / of_int K"
  note sm = round_double_small [OF pos lt, folded e_def, folded E_def, folded K_def, folded v_def]
  from sm(2) have Kr: "(0::rat) < of_int K" by simp
  have K1: "(1::rat) \<le> of_int K" using sm(2) by simp
  \<comment> \<open>lower bound\<close>
  have "of_int (n * K) \<le> q * of_int K" using lo Kr by simp
  then have "n * K \<le> round_half_even (q * of_int K)" by (rule round_half_even_ge)
  then have "(of_int (n * K) :: rat) \<le> of_int (round_half_even (q * of_int K))"
    by (simp only: of_int_le_iff)
  then have vlo: "of_int n \<le> v" using Kr by (simp add: v_def field_simps)
  \<comment> \<open>upper bound: the quotient is more than half a quantum below the next integer\<close>
  have half: "1 / 2 < (of_int (n + 1) - q) * of_int K"
  proof (cases "- 1074 \<le> e - 52")
    case True
    then have E: "E = e - 52" by (simp add: E_def)
    have "(2::rat) powi e = 2 powi (52 + E)" by (simp add: E)
    also have "\<dots> = 2 ^ 52 * 2 powi E" by (simp add: power_int_add)
    also have "\<dots> = 2 ^ 52 / of_int K"
      using quantum_inverse [OF sm(1)] by (simp add: K_def)
    finally have "2 ^ 52 / of_int K \<le> q"
      using floor_log2_bounds(1) [OF pos] by (simp add: e_def)
    then have "2 ^ 52 \<le> q * of_int K" using Kr by (simp add: field_simps)
    then have "2 ^ 52 * of_int b \<le> q * of_int K * of_int b" using br by simp
    also have "\<dots> = of_int a * of_int K" using qb by (simp add: algebra_simps)
    also have "\<dots> < 2 ^ 53 * of_int K" using a53 Kr by simp
    finally have "(of_int b :: rat) < 2 * of_int K" by simp
    then have "1 / 2 < (of_int K :: rat) / of_int b"
      using br by (simp add: field_simps)
    also have "1 / of_int b \<le> of_int (n + 1) - q"
      using gap br by (simp add: field_simps)
    then have "of_int K / of_int b \<le> (of_int (n + 1) - q) * of_int K"
      using Kr mult_right_mono [of "1 / of_int b" "of_int (n + 1) - q" "of_int K"] by simp
    finally show ?thesis .
  next
    case False
    then have "e + 1 \<le> - 1" by simp
    then have "(2::rat) powi (e + 1) \<le> 2 powi (- 1)"
      by (intro power_int_increasing) simp_all
    with floor_log2_bounds(2) [OF pos] have q2: "q < 1 / 2"
      by (simp add: e_def power_int_minus)
    then have "n = 0" using pos by (simp add: nq floor_eq_iff)
    with q2 have "1 / 2 < of_int (n + 1) - q" by simp
    also have "\<dots> \<le> (of_int (n + 1) - q) * of_int K"
      using K1 q2 \<open>n = 0\<close> by (simp add: mult_le_cancel_left1)
    finally show ?thesis .
  qed
  then have "q * of_int K < of_int ((n + 1) * K) - 1 / 2" by (simp add: algebra_simps)
  then have "round_half_even (q * of_int K) < (n + 1) * K" by (rule round_half_even_less)
  then have "(of_int (round_half_even (q * of_int K)) :: rat) < of_int ((n + 1) * K)"
    by (simp only: of_int_less_iff)
  then have vhi: "v < of_int n + 1" using Kr by (simp add: v_def field_simps)
  \<comment> \<open>no overflow, and truncation gives n\<close>
  have "of_int n + 1 \<le> q + 1" using lo by simp
  also have "\<dots> < 2 ^ 53 + 1" using lt by simp
  also have "\<dots> \<le> binary64_limit" by (simp add: binary64_limit_def)
  finally have "\<not> binary64_limit \<le> v" using vhi by simp
  with sm(3) have "round_double q = Some v" by simp
  moreover have "py_int v = n"
    using vlo vhi n0 by (simp add: py_int_def floor_eq_iff)
  ultimately show ?thesis by (simp add: q_def n_def)
qed

lemma round_double_minus: "round_double (- q) = map_option uminus (round_double q)"
  by (simp add: round_double_def Let_def)

lemma py_int_minus: "py_int (- v) = - py_int v"
  by (auto simp: py_int_def ceiling_def)

lemma round_double_overflow:
  assumes "binary64_limit \<le> \<bar>q\<bar>"
  shows "round_double q = None"
proof -
  define a where "a = \<bar>q\<bar>"
  define e where "e = floor_log2 a"
  have lim: "(2::rat) ^ 1024 \<le> a" using assms by (simp add: a_def binary64_limit_def)
  then have pos: "0 < a" by (rule less_le_trans [rotated]) simp
  have e: "1024 \<le> e"
  proof (rule ccontr)
    assume "\<not> 1024 \<le> e"
    then have "(2::rat) powi (e + 1) \<le> 2 powi 1024"
      by (intro power_int_increasing) simp_all
    with floor_log2_bounds(2) [OF pos] lim show False by (simp add: e_def)
  qed
  then have m: "max (e - 52) (- 1074) = e - 52" by simp
  define u :: rat where "u = 2 powi (e - 52)"
  have u0: "0 < u" by (simp add: u_def)
  have ue: "2 ^ 52 * u = 2 powi e"
  proof -
    have "(2::rat) powi e = 2 powi (52 + (e - 52))" by simp
    also have "\<dots> = 2 powi 52 * 2 powi (e - 52)" by (rule power_int_add) simp
    finally show ?thesis by (simp add: u_def)
  qed
  have "of_int (2 ^ 52) * u \<le> a"
    using floor_log2_bounds(1) [OF pos] ue by (simp add: e_def)
  then have "of_int (2 ^ 52) \<le> a / u" using u0 by (simp add: pos_le_divide_eq)
  then have "2 ^ 52 \<le> round_half_even (a / u)" by (rule round_half_even_ge)
  then have "(of_int (2 ^ 52) :: rat) \<le> of_int (round_half_even (a / u))"
    by (simp only: of_int_le_iff)
  then have "of_int (2 ^ 52) * u \<le> of_int (round_half_even (a / u)) * u"
    using u0 by (simp only: mult_le_cancel_right_pos)
  moreover have "(2::rat) powi 1024 \<le> 2 powi e"
    using e by (intro power_int_increasing) simp_all
  ultimately have "binary64_limit \<le> of_int (round_half_even (a / u)) * u"
    using ue by (simp add: binary64_limit_def)
  moreover have "q \<noteq> 0" using pos by (simp add: a_def)
  ultimately show ?thesis
    by (simp add: round_double_def Let_def a_def [symmetric] e_def [symmetric] m u_def [symmetric])
qed

text \<open>A positive number below half the smallest subnormal rounds to zero.\<close>

lemma round_double_underflow:
  assumes "0 < q" and "q < 2 powi (- 1075)"
  shows "round_double q = Some 0"
proof -
  have e: "floor_log2 q < - 1075"
  proof (rule ccontr)
    assume "\<not> floor_log2 q < - 1075"
    then have "(2::rat) powi (- 1075) \<le> 2 powi (floor_log2 q)"
      by (intro power_int_increasing) simp_all
    also have "\<dots> \<le> q" by (rule floor_log2_bounds(1) [OF assms(1)])
    finally show False using assms(2) by simp
  qed
  then have m: "max (floor_log2 q - 52) (- 1074) = - 1074" by simp
  define u :: rat where "u = 2 powi (- 1074)"
  have u0: "0 < u" by (simp add: u_def)
  have "(2::rat) powi (- 1075) = 2 powi (- 1074 + - 1)" by simp
  also have "\<dots> = u * 2 powi (- 1)" unfolding u_def by (rule power_int_add) simp
  finally have "q < u * (1 / 2)" using assms(2) by simp
  then have half: "q / u < 1 / 2" using u0 by (simp add: pos_divide_less_eq mult.commute)
  have pos: "0 < q / u" using assms(1) u0 by simp
  from half have "q / u < 1" by (rule less_trans) simp
  with pos have "\<lfloor>q / u\<rfloor> = 0" by (simp only: floor_eq_iff) simp
  with half have rhe: "round_half_even (q / u) = 0" by (simp add: round_half_even_def Let_def)
  have a: "\<bar>q\<bar> = q" using assms(1) by simp
  have rd: "round_double q =
      (if binary64_limit \<le> of_int (round_half_even (q / u)) * u then None
       else Some (sgn q * (of_int (round_half_even (q / u)) * u)))"
    unfolding round_double_def Let_def a m u_def using assms(1) by auto
  show ?thesis by (simp add: rd rhe binary64_limit_def)
qed

section \<open>Properties of the floats\<close>

lemma is_binary64_0 [simp]: "is_binary64 0"
  by (simp add: is_binary64_def round_double_def)

lemma is_binary64_minus [simp]: "is_binary64 (- q) \<longleftrightarrow> is_binary64 q"
  by (cases "round_double q") (auto simp: is_binary64_def round_double_minus)

lemma is_binary64_abs [simp]: "is_binary64 \<bar>q\<bar> \<longleftrightarrow> is_binary64 q"
  by (simp add: abs_if)

lemma to_float_binary64: "is_binary64 q \<Longrightarrow> to_float q = Fin q"
  by (simp add: to_float_def is_binary64_def)

text \<open>Numbers with a significand below \<open>2 ^ 53\<close> and a quantum of at least \<open>2 powi - 1074\<close>.\<close>

lemma is_binary64_dyadic_pos:
  assumes m: "0 < m" "m < 2 ^ 53" and j: "- 1074 \<le> j"
    and lim: "of_int m * 2 powi j < binary64_limit"
  shows "is_binary64 (of_int m * 2 powi j)"
proof -
  define q :: rat where "q = of_int m * 2 powi j"
  have pos: "0 < q" using m(1) by (simp add: q_def)
  define e where "e = floor_log2 q"
  define E where "E = max (e - 52) (- 1074)"
  define u :: rat where "u = 2 powi E"
  have u0: "0 < u" by (simp add: u_def)
  have "(of_int m :: rat) < of_int (2 ^ 53)" using m(2) by (simp only: of_int_less_iff)
  then have "q < 2 ^ 53 * 2 powi j" by (simp add: q_def)
  also have "\<dots> = 2 powi (53 + j)" by (simp add: power_int_add)
  finally have "2 powi e < (2::rat) powi (53 + j)"
    using floor_log2_bounds(1) [OF pos] by (simp add: e_def)
  then have "e < 53 + j"
    by (rule_tac ccontr) (use power_int_increasing [of "53 + j" e "2::rat"] in simp)
  with j have Ej: "E \<le> j" by (simp add: E_def)
  have "q / u = of_int m * 2 powi (j - E)"
    by (simp add: q_def u_def power_int_diff)
  also have "\<dots> = of_int (m * 2 ^ nat (j - E))"
    using Ej by (simp add: power_int_def)
  finally have qu: "q / u = of_int (m * 2 ^ nat (j - E))" .
  have "round_half_even (q / u) = m * 2 ^ nat (j - E)"
    by (simp only: qu round_half_even_of_int)
  then have "of_int (round_half_even (q / u)) = q / u" by (simp only: qu)
  then have "of_int (round_half_even (q / u)) * u = q" using u0 by simp
  moreover have "q \<noteq> 0" using pos by simp
  ultimately have "round_double q = Some q"
    using pos lim
    by (simp add: round_double_def Let_def e_def [symmetric] E_def [symmetric] u_def [symmetric]
        q_def [symmetric])
  then show ?thesis by (simp add: is_binary64_def q_def)
qed

lemma is_binary64_dyadic:
  assumes "\<bar>m\<bar> < 2 ^ 53" and "- 1074 \<le> j" and "\<bar>of_int m\<bar> * 2 powi j < binary64_limit"
  shows "is_binary64 (of_int m * 2 powi j)"
proof (cases m "0::int" rule: linorder_cases)
  case less
  then have "is_binary64 (of_int (- m) * 2 powi j)"
    using assms by (intro is_binary64_dyadic_pos) simp_all
  then show ?thesis by simp
next
  case equal
  then show ?thesis by simp
next
  case greater
  then show ?thesis using assms by (intro is_binary64_dyadic_pos) simp_all
qed

text \<open>What the rounding returns is a binary64 number.\<close>

lemma round_double_idem_pos:
  assumes "round_double q = Some v" and greater: "0 < q"
  shows "is_binary64 v"
proof -
  define e where "e = floor_log2 q"
  define E where "E = max (e - 52) (- 1074)"
  define u :: rat where "u = 2 powi E"
  define m where "m = round_half_even (q / u)"
  have u0: "0 < u" by (simp add: u_def)
  from assms(1) greater have v: "v = of_int m * u" and lim: "of_int m * u < binary64_limit"
    by (auto simp: round_double_def Let_def e_def [symmetric] E_def [symmetric]
        u_def [symmetric] m_def [symmetric] split: if_splits)
  have "2 powi (e - 52) \<le> u"
    unfolding u_def E_def by (intro power_int_increasing) simp_all
  moreover have "q < 2 powi (e + 1)" using floor_log2_bounds(2) [OF greater] by (simp add: e_def)
  moreover have "(2::rat) powi (e + 1) = 2 ^ 53 * 2 powi (e - 52)"
  proof -
    have "e + 1 = 53 + (e - 52)" by simp
    then have "(2::rat) powi (e + 1) = 2 powi (53 + (e - 52))" by (simp only:)
    also have "\<dots> = 2 powi 53 * 2 powi (e - 52)" by (rule power_int_add) simp
    finally show ?thesis by simp
  qed
  ultimately have "q < 2 ^ 53 * u" by (simp add: less_le_trans)
  then have "q / u \<le> of_int (2 ^ 53)" using u0 by (simp add: field_simps)
  then have m53: "m \<le> 2 ^ 53" unfolding m_def by (rule round_half_even_le)
  have "of_int 0 \<le> q / u" using greater u0 by simp
  then have m0: "0 \<le> m" unfolding m_def by (rule round_half_even_ge)
  have E: "- 1074 \<le> E" by (simp add: E_def)
  show ?thesis
  proof (cases "m = 2 ^ 53")
    case True
    have "of_int m * u = of_int (2 ^ 52) * 2 powi (E + 1)"
      by (simp add: True u_def power_int_add)
    moreover have "is_binary64 (of_int (2 ^ 52) * 2 powi (E + 1))"
      using E lim True by (intro is_binary64_dyadic) (simp_all add: u_def power_int_add)
    ultimately show ?thesis by (simp only: v)
  next
    case False
    with m53 m0 have "\<bar>m\<bar> < 2 ^ 53" by simp
    with E lim m0 show ?thesis unfolding v u_def by (intro is_binary64_dyadic) simp_all
  qed
qed

lemma round_double_idem:
  assumes "round_double q = Some v"
  shows "is_binary64 v"
proof (cases q "0::rat" rule: linorder_cases)
  case equal
  with assms show ?thesis by (simp add: round_double_def)
next
  case greater
  with assms show ?thesis by (rule round_double_idem_pos)
next
  case less
  from assms have "round_double (- q) = Some (- v)" by (simp add: round_double_minus)
  moreover have "0 < - q" using less by simp
  ultimately have "is_binary64 (- v)" by (rule round_double_idem_pos)
  then show ?thesis by simp
qed


lemma to_float_0 [simp]: "to_float 0 = Fin 0"
  by (simp add: to_float_binary64)

lemma round_double_binary64: "is_binary64 q \<Longrightarrow> round_double q = Some q"
  by (simp add: is_binary64_def)

lemma is_binary64_of_int:
  assumes "\<bar>m\<bar> < 2 ^ 53"
  shows "is_binary64 (of_int m)"
proof -
  have "(of_int \<bar>m\<bar> :: rat) < of_int (2 ^ 53)" using assms by (simp only: of_int_less_iff)
  then have "\<bar>of_int m :: rat\<bar> < binary64_limit" by (simp add: binary64_limit_def)
  with is_binary64_dyadic [of m 0] assms show ?thesis by simp
qed

lemma is_binary64_fraction:
  assumes "\<bar>m\<bar> < 2 ^ 53" and "k \<le> 1074"
  shows "is_binary64 (of_int m / 2 ^ k)"
proof -
  have "(of_int \<bar>m\<bar> :: rat) < of_int (2 ^ 53)" using assms(1) by (simp only: of_int_less_iff)
  then have "\<bar>of_int m :: rat\<bar> < 2 ^ 53" by simp
  moreover have "\<bar>of_int m :: rat\<bar> / 2 ^ k \<le> \<bar>of_int m\<bar> / 1"
    by (intro divide_left_mono) simp_all
  ultimately have "\<bar>of_int m :: rat\<bar> / 2 ^ k < binary64_limit"
    by (simp add: binary64_limit_def)
  with is_binary64_dyadic [of m "- int k"] assms show ?thesis
    by (simp add: power_int_minus field_simps)
qed

lemma float_of_int_small: "\<bar>m\<bar> < 2 ^ 53 \<Longrightarrow> float_of_int m = Inr (Fin (of_int m))"
  by (simp add: float_of_int_def round_double_binary64 is_binary64_of_int)

lemma b64_examples:
  "is_binary64 (3 / 2)" "is_binary64 3" "is_binary64 (3 / 16)" "is_binary64 (1 / 16)"
  "is_binary64 (1 / 2)" "is_binary64 1" "is_binary64 4" "is_binary64 8" "is_binary64 2"
  "is_binary64 (27 / 16)"
  using is_binary64_fraction [of 3 1] is_binary64_fraction [of 3 0] is_binary64_fraction [of 3 4]
    is_binary64_fraction [of 1 4] is_binary64_fraction [of 1 1] is_binary64_fraction [of 1 0]
    is_binary64_fraction [of 4 0] is_binary64_fraction [of 8 0] is_binary64_fraction [of 2 0]
    is_binary64_fraction [of 27 4]
  by simp_all

lemma to_float_examples [simp]:
  "to_float (3 / 2) = Fin (3 / 2)" "to_float 3 = Fin 3" "to_float (3 / 16) = Fin (3 / 16)"
  "to_float (1 / 16) = Fin (1 / 16)" "to_float (1 / 2) = Fin (1 / 2)" "to_float 1 = Fin 1"
  "to_float 4 = Fin 4" "to_float 8 = Fin 8" "to_float 2 = Fin 2"
  "to_float (- (3 / 16)) = Fin (- (3 / 16))" "to_float (- (1 / 16)) = Fin (- (1 / 16))"
  "to_float (- (1 / 2)) = Fin (- (1 / 2))" "to_float (- (3 / 2)) = Fin (- (3 / 2))"
  by (simp_all add: to_float_binary64 b64_examples)

section \<open>Properties of the pixel accumulator\<close>

lemma mix_channel_floor:
  assumes "0 < hc + w" and "0 \<le> old * hc + new * w" and "old * hc + new * w < 2 ^ 53"
  shows "mix_channel old hc new w =
           Inr \<lfloor>rat_of_int (old * hc + new * w) / rat_of_int (hc + w)\<rfloor>"
proof -
  from round_double_exact_floor [OF assms(2,3,1)]
  obtain v where "round_double (of_int (old * hc + new * w) / of_int (hc + w)) = Some v"
    and "py_int v = (old * hc + new * w) div (hc + w)" by blast
  with assms(1) show ?thesis
    by (simp add: mix_channel_def py_truediv_def floor_divide_of_int_eq
          del: of_int_add of_int_mult)
qed

lemma mix_channel_negative:
  assumes "0 < hc + w" and "old * hc + new * w \<le> 0" and "- (2 ^ 53) < old * hc + new * w"
  shows "mix_channel old hc new w = Inr (- ((- (old * hc + new * w)) div (hc + w)))"
proof -
  define a where "a = - (old * hc + new * w)"
  from assms have a: "0 \<le> a" "a < 2 ^ 53" by (simp_all add: a_def)
  from round_double_exact_floor [OF a assms(1)]
  obtain v where v: "round_double (of_int a / of_int (hc + w)) = Some v"
    "py_int v = a div (hc + w)" by blast
  have "rat_of_int (old * hc + new * w) = - of_int a"
    unfolding a_def by (simp only: of_int_minus minus_minus)
  then have "rat_of_int (old * hc + new * w) / of_int (hc + w) = - (of_int a / of_int (hc + w))"
    by (simp only: minus_divide_left)
  then have "round_double (of_int (old * hc + new * w) / of_int (hc + w)) = Some (- v)"
    using v(1) by (simp only: round_double_minus) simp
  with assms(1) v(2) show ?thesis
    by (simp add: mix_channel_def py_truediv_def py_int_minus a_def del: of_int_add of_int_mult)
qed

lemma mix_channel_zero_division: "mix_channel old hc new (- hc) = Inl ZeroDivisionError"
  by (simp add: mix_channel_def py_truediv_def)

lemma mix_channel_in_range:
  assumes "0 \<le> hc" and "0 \<le> w" and "0 < hc + w" and "channel_ok old" and "channel_ok new"
  shows "\<exists>v. mix_channel old hc new w = Inr v \<and> channel_ok v"
proof -
  define q :: rat where "q = of_int (old * hc + new * w) / of_int (hc + w)"
  have d: "(0::rat) < of_int (hc + w)" using assms(3) by (simp only: of_int_0_less_iff)
  have "0 \<le> old * hc + new * w" using assms by (simp add: channel_ok_def)
  then have q0: "0 \<le> q" using d by (simp add: q_def del: of_int_add of_int_mult)
  have "old * hc \<le> 255 * hc" "new * w \<le> 255 * w"
    using assms by (simp_all add: channel_ok_def mult_right_mono)
  then have "old * hc + new * w \<le> 255 * (hc + w)" by (simp add: algebra_simps)
  then have "(of_int (old * hc + new * w) :: rat) \<le> of_int (255 * (hc + w))"
    by (simp only: of_int_le_iff)
  then have "(of_int (old * hc + new * w) :: rat) \<le> of_int 255 * of_int (hc + w)"
    by (simp only: of_int_mult)
  then have "q \<le> of_int 255"
    using d by (simp only: q_def pos_divide_le_eq)
  from round_double_bounded [OF q0 this] obtain v
    where v: "round_double q = Some v" "0 \<le> v" "v \<le> of_int 255" by auto
  then have "0 \<le> py_int v" "py_int v \<le> 255"
    by (simp_all add: py_int_def floor_le_iff) 
  with v(1) assms(3) show ?thesis
    by (simp add: mix_channel_def py_truediv_def q_def channel_ok_def
          del: of_int_add of_int_mult)
qed

lemma mix_color_zero_division: "mix_color p c (- hit_count p) = Inl ZeroDivisionError"
  by (cases c) (simp add: mix_color_def mix_channel_def py_truediv_def)

lemma mix_color_in_range:
  assumes "0 \<le> hit_count p" and "0 \<le> w" and "0 < hit_count p + w"
    and "pixel_ok p" and "color_ok c"
  shows "\<exists>p'. mix_color p c w = Inr p' \<and> pixel_ok p' \<and> hit_count p' = hit_count p + 1"
proof -
  obtain c0 c1 c2 where c: "c = (c0, c1, c2)" by (cases c) auto
  from assms(4,5) have ok: "channel_ok (pixel_r p)" "channel_ok (pixel_g p)" "channel_ok (pixel_b p)"
    "channel_ok c0" "channel_ok c1" "channel_ok c2"
    by (simp_all add: pixel_ok_def color_ok_def c)
  from mix_channel_in_range [OF assms(1-3) ok(1) ok(4)] obtain r'
    where r: "mix_channel (pixel_r p) (hit_count p) c0 w = Inr r'" "channel_ok r'" by blast
  from mix_channel_in_range [OF assms(1-3) ok(2) ok(5)] obtain g'
    where g: "mix_channel (pixel_g p) (hit_count p) c1 w = Inr g'" "channel_ok g'" by blast
  from mix_channel_in_range [OF assms(1-3) ok(3) ok(6)] obtain b'
    where b: "mix_channel (pixel_b p) (hit_count p) c2 w = Inr b'" "channel_ok b'" by blast
  from r g b show ?thesis by (simp add: mix_color_def c pixel_ok_def)
qed

lemma mix_calls_in_range:
  assumes "0 \<le> hit_count p" and "pixel_ok p" and "list_all color_ok cs"
  shows "\<exists>p'. mix_calls p cs = Inr p' \<and> pixel_ok p' \<and>
               hit_count p' = hit_count p + int (length cs)"
  using assms
proof (induction cs arbitrary: p)
  case Nil
  then show ?case by simp
next
  case (Cons c cs)
  from Cons.prems have "0 < hit_count p + 1" "color_ok c" "list_all color_ok cs" by simp_all
  with mix_color_in_range [of p 1 c] Cons.prems(1,2) obtain p1
    where p1: "mix_color p c 1 = Inr p1" "pixel_ok p1" "hit_count p1 = hit_count p + 1"
    by auto
  with Cons.prems(1) have "0 \<le> hit_count p1" by simp
  from Cons.IH [OF this p1(2) \<open>list_all color_ok cs\<close>] p1 show ?case by auto
qed

lemma mix_color_first_hit:
  "mix_color Pixel (10, 20, 30) 1 = Inr \<lparr>pixel_r = 10, pixel_g = 20, pixel_b = 30, hit_count = 1\<rparr>"
  by (simp add: mix_color_def Pixel_def mix_channel_floor)

text \<open>
  C1, as amended. For every pixel state, colour and weight \<open>w\<close> such that
  \<open>hit_count + w\<close> is positive and, for each channel, \<open>old * hit_count + new * w\<close> is
  non-negative and below \<open>2 ^ 53\<close>, \<open>mix_color\<close> returns normally, sets each channel to
  the floor of \<open>(old * hit_count + new * w) / (hit_count + w)\<close>, and increments
  \<open>hit_count\<close> by exactly 1, whatever \<open>w\<close> is within these bounds.
\<close>

theorem mix_color_floor:
  assumes "0 < hit_count p + w"
    and "0 \<le> pixel_r p * hit_count p + c0 * w" and "pixel_r p * hit_count p + c0 * w < 2 ^ 53"
    and "0 \<le> pixel_g p * hit_count p + c1 * w" and "pixel_g p * hit_count p + c1 * w < 2 ^ 53"
    and "0 \<le> pixel_b p * hit_count p + c2 * w" and "pixel_b p * hit_count p + c2 * w < 2 ^ 53"
  shows "mix_color p (c0, c1, c2) w =
           Inr \<lparr>pixel_r = \<lfloor>rat_of_int (pixel_r p * hit_count p + c0 * w) / rat_of_int (hit_count p + w)\<rfloor>,
                pixel_g = \<lfloor>rat_of_int (pixel_g p * hit_count p + c1 * w) / rat_of_int (hit_count p + w)\<rfloor>,
                pixel_b = \<lfloor>rat_of_int (pixel_b p * hit_count p + c2 * w) / rat_of_int (hit_count p + w)\<rfloor>,
                hit_count = hit_count p + 1\<rparr>"
  using assms by (simp add: mix_color_def mix_channel_floor del: of_int_add of_int_mult)

theorem mix_color_floor_witness:
  "mix_color \<lparr>pixel_r = 100, pixel_g = 50, pixel_b = 7, hit_count = 3\<rparr> (255, 0, 10) 2 =
     Inr \<lparr>pixel_r = 162, pixel_g = 30, pixel_b = 8, hit_count = 4\<rparr>"
proof -
  have "\<lfloor>(41::rat) / 5\<rfloor> = 8" by code_simp
  with mix_color_floor [of "\<lparr>pixel_r = 100, pixel_g = 50, pixel_b = 7, hit_count = 3\<rparr>" 2 255 0 10]
  show ?thesis by simp
qed

text \<open>
  C1 as stated fails: on the fresh pixel with weight 0 the call raises ZeroDivisionError
  (no channel is set, the hit count is not incremented); and with weight \<open>-1\<close> on a pixel
  with three hits the red channel becomes \<open>int(-127.5) = -127\<close>, where the floor is
  \<open>-128\<close>.
\<close>

theorem mix_color_floor_counterexample:
  "mix_color Pixel (0, 0, 0) 0 = Inl ZeroDivisionError \<and>
   mix_color \<lparr>pixel_r = 0, pixel_g = 0, pixel_b = 0, hit_count = 3\<rparr> (255, 0, 0) (- 1) =
     Inr \<lparr>pixel_r = - 127, pixel_g = 0, pixel_b = 0, hit_count = 4\<rparr> \<and>
   \<lfloor>rat_of_int (0 * 3 + 255 * (- 1)) / rat_of_int (3 + (- 1))\<rfloor> = - 128"
proof -
  have "mix_color Pixel (0, 0, 0) 0 = Inl ZeroDivisionError"
    using mix_color_zero_division [of Pixel] by (simp add: Pixel_def)
  moreover have "mix_channel 0 3 255 (- 1) = Inr (- 127)"
    by (simp add: mix_channel_negative)
  moreover have "mix_channel 0 3 0 (- 1) = Inr 0"
    by (simp add: mix_channel_floor)
  moreover have "\<lfloor>rat_of_int (0 * 3 + 255 * (- 1)) / rat_of_int (3 + (- 1))\<rfloor> = - 128"
    by (simp add: floor_divide_of_int_eq del: of_int_add of_int_mult of_int_minus of_int_numeral)
  ultimately show ?thesis by (simp add: mix_color_def)
qed

text \<open>
  C4. Starting from the zero-initialised pixel, after each call of any sequence of
  \<open>mix_color\<close> calls with weight 1 and colour channels in \<open>[0, 255]\<close> (that is, after
  every prefix \<open>take n cs\<close> of the sequence) the call has returned, the channels are
  integers within \<open>[0, 255]\<close>, and \<open>hit_count\<close> is the number of calls made, so each call
  increases it by exactly 1 and it is never reset.
\<close>

theorem mix_calls_invariant:
  assumes "list_all color_ok cs" and "n \<le> length cs"
  shows "\<exists>p'. mix_calls Pixel (take n cs) = Inr p' \<and>
               channel_ok (pixel_r p') \<and> channel_ok (pixel_g p') \<and> channel_ok (pixel_b p') \<and>
               hit_count p' = int n"
proof -
  from assms(1) have "list_all color_ok (take n cs)"
    by (auto simp: list_all_iff dest: in_set_takeD)
  from mix_calls_in_range [of Pixel, OF _ _ this] assms(2) show ?thesis
    by (auto simp: Pixel_def pixel_ok_def channel_ok_def)
qed

theorem mix_calls_invariant_witness:
  "\<exists>p'. mix_calls Pixel [(255, 0, 10), (0, 255, 20)] = Inr p' \<and>
         channel_ok (pixel_r p') \<and> channel_ok (pixel_g p') \<and> channel_ok (pixel_b p') \<and>
         hit_count p' = 2"
  using mix_calls_invariant [of "[(255, 0, 10), (0, 255, 20), (7, 7, 7)]" 2]
  by (simp add: color_ok_def channel_ok_def)

text \<open>
  C8, as amended. For every pixel state with \<open>hit_count \<ge> 0\<close> and channels in
  \<open>[0, 255]\<close>, every colour with channels in \<open>[0, 255]\<close> and every weight \<open>w \<ge> 0\<close> with
  \<open>hit_count + w > 0\<close>, \<open>mix_color\<close> returns normally.
\<close>

theorem mix_color_returns:
  assumes "0 \<le> hit_count p" and "0 \<le> w" and "0 < hit_count p + w"
    and "channel_ok (pixel_r p)" and "channel_ok (pixel_g p)" and "channel_ok (pixel_b p)"
    and "channel_ok c0" and "channel_ok c1" and "channel_ok c2"
  shows "\<exists>p'. mix_color p (c0, c1, c2) w = Inr p'"
  using mix_color_in_range [of p w "(c0, c1, c2)"] assms
  by (auto simp: pixel_ok_def color_ok_def)

theorem mix_color_returns_witness:
  "\<exists>p'. mix_color \<lparr>pixel_r = 255, pixel_g = 0, pixel_b = 128, hit_count = 2 ^ 70\<rparr> (0, 255, 77) 5 = Inr p'"
  using mix_color_returns [of "\<lparr>pixel_r = 255, pixel_g = 0, pixel_b = 128, hit_count = 2 ^ 70\<rparr>" 5 0 255 77]
  by (simp add: channel_ok_def)

text \<open>
  C8 as stated fails: weight 0 is accepted by the interface and raises ZeroDivisionError
  on the fresh pixel; and a pixel state with \<open>hit_count = 1\<close> whose red channel is
  \<open>2 ^ 1025\<close> raises OverflowError with the default weight, the quotient \<open>2 ^ 1024\<close> being
  too large for a float.
\<close>

theorem mix_color_returns_counterexample:
  "mix_color Pixel (255, 255, 255) 0 = Inl ZeroDivisionError \<and>
   mix_color \<lparr>pixel_r = 2 ^ 1025, pixel_g = 0, pixel_b = 0, hit_count = 1\<rparr> (0, 0, 0) 1 = Inl OverflowError"
proof -
  have "round_double (2 ^ 1025 / 2) = None"
    by (rule round_double_overflow) (simp add: binary64_limit_def)
  then have "mix_channel (2 ^ 1025) 1 0 1 = Inl OverflowError"
    by (simp add: mix_channel_def py_truediv_def)
  moreover have "mix_color Pixel (255, 255, 255) 0 = Inl ZeroDivisionError"
    using mix_color_zero_division [of Pixel] by (simp add: Pixel_def)
  ultimately show ?thesis by (simp add: mix_color_def)
qed

section \<open>Properties of the image buffer\<close>

lemma well_formed_FractalImage: "well_formed (FractalImage w h)"
  by (simp add: well_formed_def FractalImage_def list_all_length)

lemma well_formed_row:
  assumes "well_formed img" and "contains img x y"
  shows "py_getitem (img_data img) y = Inr (img_data img ! nat y)"
    and "py_getitem (img_data img ! nat y) x = Inr (pixel_at img x y)"
proof -
  from assms have y: "0 \<le> y" "nat y < length (img_data img)" and x: "0 \<le> x" "x < img_width img"
    by (auto simp: well_formed_def contains_def)
  then show "py_getitem (img_data img) y = Inr (img_data img ! nat y)"
    by (simp add: py_getitem_def)
  from assms(1) y have "length (img_data img ! nat y) = nat (img_width img)"
    by (simp add: well_formed_def list_all_length)
  with x show "py_getitem (img_data img ! nat y) x = Inr (pixel_at img x y)"
    by (simp add: py_getitem_def pixel_at_def)
qed

lemma add_hit_outside: "\<not> contains img x y \<Longrightarrow> add_hit img x y c = Inr img"
  by (simp add: add_hit_def)

lemma add_hit_inside:
  assumes "well_formed img" and "contains img x y"
  shows "add_hit img x y c =
     (case mix_color (pixel_at img x y) c 1 of
        Inl e \<Rightarrow> Inl e
      | Inr p' \<Rightarrow> Inr (img\<lparr>img_data := (img_data img)[nat y := (img_data img ! nat y)[nat x := p']]\<rparr>))"
  using assms by (simp add: add_hit_def well_formed_row)

lemma pixel_at_update:
  assumes "well_formed img" and "contains img x y" and "contains img x' y'"
  shows "pixel_at (img\<lparr>img_data := (img_data img)[nat y := (img_data img ! nat y)[nat x := p']]\<rparr>) x' y'
         = (if x' = x \<and> y' = y then p' else pixel_at img x' y')"
proof -
  from assms have b: "0 \<le> y" "nat y < length (img_data img)" "0 \<le> x" "0 \<le> x'" "0 \<le> y'"
     "nat y' < length (img_data img)" "x < img_width img" "x' < img_width img"
    by (auto simp: well_formed_def contains_def)
  with assms(1) have l: "length (img_data img ! nat y) = nat (img_width img)"
    by (simp add: well_formed_def list_all_length)
  show ?thesis
    using b l by (auto simp: pixel_at_def nth_list_update)
qed

lemma well_formed_update:
  assumes "well_formed img"
  shows "well_formed (img\<lparr>img_data := (img_data img)[nat y := (img_data img ! nat y)[nat x := p']]\<rparr>)"
proof -
  let ?d = "img_data img"
  have "length (?d[nat y := (?d ! nat y)[nat x := p']] ! n) = length (?d ! n)" for n
    by (cases "nat y < length ?d") (simp_all add: nth_list_update list_update_beyond)
  with assms show ?thesis
    by (simp add: well_formed_def list_all_length)
qed

text \<open>
  C3. For every pair of integers \<open>(x, y)\<close> outside the image, negative values included,
  \<open>add_hit\<close> returns normally and returns the buffer as it was. For \<open>(x, y)\<close> inside a
  buffer of the shape the constructor builds, \<open>add_hit\<close> does what \<open>mix_color\<close> with the
  given colour (and the default weight) does on the pixel at \<open>(x, y)\<close>: it raises what
  that call raises, and otherwise that pixel becomes the result of the call while every
  other pixel, the width and the height stay as they were.
\<close>

theorem add_hit_bounds:
  "(\<not> contains img x y \<longrightarrow> add_hit img x y c = Inr img) \<and>
   (well_formed img \<and> contains img x y \<longrightarrow>
      (case mix_color (pixel_at img x y) c 1 of
         Inl e \<Rightarrow> add_hit img x y c = Inl e
       | Inr p' \<Rightarrow>
           (\<exists>img'. add_hit img x y c = Inr img' \<and> well_formed img' \<and>
              img_width img' = img_width img \<and> img_height img' = img_height img \<and>
              (\<forall>x' y'. contains img x' y' \<longrightarrow>
                 pixel_at img' x' y' = (if x' = x \<and> y' = y then p' else pixel_at img x' y')))))"
  by (auto simp: add_hit_outside add_hit_inside pixel_at_update well_formed_update
      split: sum.splits)

theorem add_hit_bounds_witness:
  "add_hit (FractalImage 2 2) (- 1) 0 (10, 20, 30) = Inr (FractalImage 2 2) \<and>
   add_hit (FractalImage 2 2) 1 2 (10, 20, 30) = Inr (FractalImage 2 2) \<and>
   (\<exists>img'. add_hit (FractalImage 2 2) 1 0 (10, 20, 30) = Inr img' \<and>
      pixel_at img' 1 0 = \<lparr>pixel_r = 10, pixel_g = 20, pixel_b = 30, hit_count = 1\<rparr> \<and>
      pixel_at img' 0 0 = Pixel \<and> pixel_at img' 0 1 = Pixel \<and> pixel_at img' 1 1 = Pixel)"
proof -
  let ?img = "FractalImage 2 2"
  have p: "pixel_at ?img 0 0 = Pixel" "pixel_at ?img 1 0 = Pixel"
      "pixel_at ?img 0 1 = Pixel" "pixel_at ?img 1 1 = Pixel"
    by (simp_all add: pixel_at_def FractalImage_def nth_replicate numeral_2_eq_2)
  have c: "\<not> contains ?img (- 1) 0" "\<not> contains ?img 1 2" "contains ?img 1 0"
      "contains ?img 0 0" "contains ?img 0 1" "contains ?img 1 1"
    by (simp_all add: contains_def FractalImage_def)
  from add_hit_bounds [of ?img "- 1" 0 "(10, 20, 30)"] c
  have "add_hit ?img (- 1) 0 (10, 20, 30) = Inr ?img" by simp
  moreover from add_hit_bounds [of ?img 1 2 "(10, 20, 30)"] c
  have "add_hit ?img 1 2 (10, 20, 30) = Inr ?img" by simp
  moreover from add_hit_bounds [of ?img 1 0 "(10, 20, 30)"] c well_formed_FractalImage [of 2 2]
  have "\<exists>img'. add_hit ?img 1 0 (10, 20, 30) = Inr img' \<and>
      pixel_at img' 1 0 = \<lparr>pixel_r = 10, pixel_g = 20, pixel_b = 30, hit_count = 1\<rparr> \<and>
      pixel_at img' 0 0 = Pixel \<and> pixel_at img' 0 1 = Pixel \<and> pixel_at img' 1 1 = Pixel"
    using p by (auto simp: mix_color_first_hit)
  ultimately show ?thesis by simp
qed

text \<open>
  C6. For all integers \<open>x\<close> and \<open>y\<close>, negative and arbitrarily large ones included (Python
  integers are unbounded), \<open>contains\<close> is true exactly when \<open>0 \<le> x < width\<close> and
  \<open>0 \<le> y < height\<close>.
\<close>

theorem contains_iff:
  "contains img x y \<longleftrightarrow> x \<in> {0 ..< img_width img} \<and> y \<in> {0 ..< img_height img}"
  by (simp add: contains_def)

section \<open>Properties of the random colour\<close>



section \<open>Properties of the coordinate mapping\<close>

text \<open>
  The subtraction rounds before the division and the product are taken: for the float
  just below \<open>- 0.375\<close> the difference from the world origin rounds to \<open>1.125\<close> and the
  column is 3, where the exact value of the expression is below 3.
\<close>

lemma round_double_quarter_ulp: "round_double (9 / 8 - 1 / 2 ^ 54) = Some (9 / 8)"
  by code_simp

lemma pixel_index_rounding:
  "pixel_index (Fin (- (3 / 8) - 1 / 2 ^ 54)) (Fin (- (3 / 2))) (Fin 3) 8 = Inr 3 \<and>
   \<lfloor>(- (3 / 8) - 1 / 2 ^ 54 - (- (3 / 2))) / 3 * 8 :: rat\<rfloor> = 2"
proof -
  have s: "(- (3 / 8) - 1 / 2 ^ 54 + 3 / 2 :: rat) = 9 / 8 - 1 / 2 ^ 54" by simp
  have b: "is_binary64 (3 / 8)" "is_binary64 3"
    using is_binary64_fraction [of 3 3] is_binary64_fraction [of 3 0] by simp_all
  have "f_sub (Fin (- (3 / 8) - 1 / 2 ^ 54)) (Fin (- (3 / 2))) = Fin (9 / 8)"
    unfolding f_sub_def f_neg.simps f_add.simps minus_minus s
    by (simp only: to_float_def round_double_quarter_ulp option.case)
  moreover have "f_div (Fin (9 / 8)) (Fin 3) = Inr (Fin (3 / 8))"
    by (simp add: to_float_binary64 b)
  moreover have "f_mul (Fin (3 / 8)) (Fin 8) = Fin 3"
    by (simp add: to_float_binary64 b)
  ultimately have "pixel_index (Fin (- (3 / 8) - 1 / 2 ^ 54)) (Fin (- (3 / 2))) (Fin 3) 8 = Inr 3"
    by (simp add: pixel_index_def float_of_int_small py_int_def del: f_mul.simps f_div.simps)
  moreover have "\<lfloor>(- (3 / 8) - 1 / 2 ^ 54 - (- (3 / 2))) / 3 * 8 :: rat\<rfloor> = 2"
    by (simp add: floor_eq_iff)
  ultimately show ?thesis by simp
qed
text \<open>
  C2. The mapping does not compute the floor where the value is negative: \<open>int()\<close>
  truncates toward zero. In the world of \<open>main\<close> and an image of 8 by 8 pixels the point
  \<open>(-1.6875, 0)\<close> lies outside the world rectangle (\<open>Rect.contains\<close> is false), the
  value \<open>(px - worldX) / worldWidth * imageWidth\<close> is \<open>- 0.5\<close> with floor \<open>- 1\<close>, and
  \<open>map_to_pixel\<close> returns the pixel \<open>(0, 4)\<close> of the image: a point left of the world is
  plotted into column 0.
\<close>

theorem map_to_pixel_outside_world:
  "map_to_pixel main_world (Point (Fin (- (27 / 16))) (Fin 0)) (FractalImage 8 8) = Inr (Some (0, 4)) \<and>
   \<not> rect_contains main_world (Point (Fin (- (27 / 16))) (Fin 0)) \<and>
   \<lfloor>(- (27 / 16) - (- (3 / 2))) / 3 * 8 :: rat\<rfloor> = - 1"
proof -
  have "pixel_index (Fin (- (27 / 16))) (Fin (- (3 / 2))) (Fin 3) 8 = Inr 0"
    by (simp add: pixel_index_def f_sub_def float_of_int_small py_int_def ceiling_def floor_eq_iff)
  moreover have "pixel_index (Fin 0) (Fin (- (3 / 2))) (Fin 3) 8 = Inr 4"
    by (simp add: pixel_index_def f_sub_def float_of_int_small py_int_def floor_eq_iff)
  moreover have "\<lfloor>(- (27 / 16) - (- (3 / 2))) / 3 * 8 :: rat\<rfloor> = - 1"
    by (simp add: floor_eq_iff)
  ultimately show ?thesis
    by (simp add: map_to_pixel_def main_world_def Rect_def Point_def FractalImage_def
        contains_def rect_contains_def)
qed

section \<open>Properties of the transformations\<close>

lemma f_div_nonzero: "b \<noteq> Fin 0 \<Longrightarrow> \<exists>v. f_div a b = Inr v"
  by (cases b; cases a) simp_all

lemma f_div_not_zero_division: "b \<noteq> Fin 0 \<Longrightarrow> f_div a b \<noteq> Inl ZeroDivisionError"
  using f_div_nonzero [of b a] by auto

lemma py_pow2_not_zero_division: "py_pow2 lm v \<noteq> Inl ZeroDivisionError"
  by (cases v) (simp_all split: option.splits)

lemma py_sin_not_zero_division: "py_sin lm v \<noteq> Inl ZeroDivisionError"
  by (cases v) simp_all

lemma py_cos_not_zero_division: "py_cos lm v \<noteq> Inl ZeroDivisionError"
  by (cases v) simp_all

lemma spherical_not_zero_division: "spherical lm p \<noteq> Inl ZeroDivisionError"
proof -
  have "f_div a r \<noteq> Inl ZeroDivisionError" if "r \<noteq> Fin 0" for a r
    using that by (rule f_div_not_zero_division)
  then show ?thesis
    using py_pow2_not_zero_division [of lm]
    by (auto simp: spherical_def Let_def split: sum.splits)
qed

lemma sinusoidal_not_zero_division: "sinusoidal lm p \<noteq> Inl ZeroDivisionError"
  using py_sin_not_zero_division [of lm]
  by (auto simp: sinusoidal_def split: sum.splits)

lemma fish_not_zero_division: "fish lm p \<noteq> Inl ZeroDivisionError"
  using py_sin_not_zero_division [of lm]
  by (auto simp: fish_def split: sum.splits)

lemma swirl_not_zero_division: "swirl lm p \<noteq> Inl ZeroDivisionError"
  using py_sin_not_zero_division [of lm] py_cos_not_zero_division [of lm]
    py_pow2_not_zero_division [of lm]
  by (auto simp: swirl_def Let_def split: sum.splits)

lemma lib_sqr_sample: "lib_sqr sample_libm q = round_double (q * q)"
  by (simp add: sample_libm_def)

lemma sample_sqr_2: "py_pow2 sample_libm (Fin 2) = Inr (Fin 4)"
  by (simp add: lib_sqr_sample round_double_binary64 b64_examples)

text \<open>
  C7, as amended. \<open>spherical\<close> applied to the point \<open>(0, 0)\<close> returns the point \<open>(0, 0)\<close>
  through its fallback branch, where the division it guards would raise
  ZeroDivisionError. The fallback is taken exactly when the computed squared radius
  \<open>x ** 2 + y ** 2\<close> is zero, and otherwise the result is \<open>(x / r2, y / r2)\<close>. No
  transformation of the catalogue raises a division fault on any point.
\<close>

theorem spherical_fallback:
  "spherical lm (Point (Fin 0) (Fin 0)) = Inr (Point (Fin 0) (Fin 0)) \<and>
   f_div (Fin 0) (Fin 0) = Inl ZeroDivisionError \<and>
   (\<forall>(p::point) a b. py_pow2 lm (point_x p) = Inr a \<and> py_pow2 lm (point_y p) = Inr b \<longrightarrow>
      (f_add a b = Fin 0 \<longrightarrow> spherical lm p = Inr (Point (Fin 0) (Fin 0))) \<and>
      (f_add a b \<noteq> Fin 0 \<longrightarrow>
         (\<exists>u v. f_div (point_x p) (f_add a b) = Inr u \<and> f_div (point_y p) (f_add a b) = Inr v \<and>
                spherical lm p = Inr (Point u v)))) \<and>
   list_all (\<lambda>t. \<forall>p. t p \<noteq> Inl ZeroDivisionError) (TRANSFORMATIONS lm)"
proof (intro conjI allI impI)
  show "spherical lm (Point (Fin 0) (Fin 0)) = Inr (Point (Fin 0) (Fin 0))"
    by (simp add: spherical_def Point_def Let_def)
  show "f_div (Fin 0) (Fin 0) = Inl ZeroDivisionError" by simp
next
  fix p :: point and a b
  assume sq: "py_pow2 lm (point_x p) = Inr a \<and> py_pow2 lm (point_y p) = Inr b"
  { assume "f_add a b = Fin 0"
    with sq show "spherical lm p = Inr (Point (Fin 0) (Fin 0))"
      by (simp add: spherical_def Let_def) }
  { assume nz: "f_add a b \<noteq> Fin 0"
    from f_div_nonzero [OF nz] obtain u v
      where "f_div (point_x p) (f_add a b) = Inr u" "f_div (point_y p) (f_add a b) = Inr v"
      by blast
    with sq nz
    show "\<exists>u v. f_div (point_x p) (f_add a b) = Inr u \<and> f_div (point_y p) (f_add a b) = Inr v \<and>
        spherical lm p = Inr (Point u v)"
      by (simp add: spherical_def Let_def) }
next
  show "list_all (\<lambda>t. \<forall>p. t p \<noteq> Inl ZeroDivisionError) (TRANSFORMATIONS lm)"
    by (simp add: TRANSFORMATIONS_def spherical_not_zero_division sinusoidal_not_zero_division
        swirl_not_zero_division fish_not_zero_division linear_transformation_def diamond_def)
qed

theorem spherical_fallback_witness:
  "spherical sample_libm (Point (Fin 2) (Fin 0)) = Inr (Point (Fin (1 / 2)) (Fin 0)) \<and>
   spherical sample_libm (Point (Fin (1 / 2 ^ 600)) (Fin 0)) = Inr (Point (Fin 0) (Fin 0))"
proof -
  let ?q = "Point (Fin (1 / 2 ^ 600)) (Fin 0)"
  have "(1 / 2 ^ 600 * (1 / 2 ^ 600) :: rat) < 2 powi (- 1075)"
    by (simp add: power_int_minus field_simps)
  then have "round_double (1 / 2 ^ 600 * (1 / 2 ^ 600)) = Some 0"
    by (intro round_double_underflow) simp_all
  then have sq0: "py_pow2 sample_libm (point_x ?q) = Inr (Fin 0) \<and>
      py_pow2 sample_libm (point_y ?q) = Inr (Fin 0)"
    by (simp add: Point_def lib_sqr_sample)
  have z: "f_add (Fin 0) (Fin 0) = Fin 0" by simp
  from spherical_fallback [of sample_libm] sq0 z
  have under: "spherical sample_libm ?q = Inr (Point (Fin 0) (Fin 0))"
    by blast
  let ?p = "Point (Fin 2) (Fin 0)"
  have sq: "py_pow2 sample_libm (point_x ?p) = Inr (Fin 4) \<and>
      py_pow2 sample_libm (point_y ?p) = Inr (Fin 0)"
    by (simp add: Point_def lib_sqr_sample round_double_binary64 b64_examples)
  have nz: "f_add (Fin 4) (Fin 0) \<noteq> Fin 0" by simp
  from spherical_fallback [of sample_libm] sq nz
  have "\<exists>u v. f_div (point_x ?p) (f_add (Fin 4) (Fin 0)) = Inr u \<and>
      f_div (point_y ?p) (f_add (Fin 4) (Fin 0)) = Inr v \<and>
      spherical sample_libm ?p = Inr (Point u v)"
    by blast
  with under show ?thesis by (auto simp: Point_def)
qed

text \<open>
  C7 as stated fails in its general half: the transformations do not return a fixed
  defined point at the edges of their domain. \<open>spherical\<close> raises OverflowError on a point
  whose square overflows, \<open>sinusoidal\<close> raises ValueError on an infinite coordinate, and
  \<open>diamond\<close> and \<open>linear\<close> return a NaN coordinate as it is.
\<close>

theorem spherical_fallback_counterexample:
  "spherical sample_libm (Point (Fin (2 ^ 600)) (Fin 0)) = Inl OverflowError \<and>
   sinusoidal sample_libm (Point PInf (Fin 0)) = Inl ValueError \<and>
   diamond (Point NaN (Fin 0)) = Inr (Point NaN (Fin 0)) \<and>
   linear_transformation (Point NaN NaN) = Inr (Point NaN NaN)"
proof -
  have "round_double (2 ^ 600 * 2 ^ 600) = None"
    by (rule round_double_overflow) (simp add: binary64_limit_def)
  then have "py_pow2 sample_libm (Fin (2 ^ 600)) = Inl OverflowError"
    by (simp add: lib_sqr_sample)
  then show ?thesis
    by (simp add: spherical_def sinusoidal_def diamond_def linear_transformation_def Point_def)
qed

section \<open>Properties of the sampling engine\<close>

text \<open>
  With \<open>symmetry = 1\<close> the loop over \<open>range(symmetry)\<close> runs once, with \<open>s = 0\<close>, and
  \<open>2 * pi * 0 / 1\<close> is the float zero. The C standard fixes \<open>cos(0.0) = 1.0\<close> and
  \<open>sin(0.0) = 0.0\<close>; these are the two conditions on the library below.
\<close>

lemma two_pi_binary64: "is_binary64 (2 * math_pi)"
  using is_binary64_fraction [of 884279719003555 47] by (simp add: math_pi_def)

lemma rotation_angle_0_1: "rotation_angle 0 1 = Inr (Fin 0)"
proof -
  have "f_mul (Fin 2) (Fin math_pi) = Fin (2 * math_pi)"
    by (simp add: to_float_binary64 two_pi_binary64)
  moreover have "f_mul (Fin (2 * math_pi)) (Fin 0) = Fin 0" by simp
  ultimately show ?thesis
    by (simp add: rotation_angle_def float_of_int_small del: f_mul.simps)
qed

lemma rotated_point_0:
  assumes "lib_cos lm 0 = 1" and "lib_sin lm 0 = 0" and "finite_point p"
  shows "rotated_point lm p (Fin 0) = Inr p"
proof -
  obtain x y where p: "p = \<lparr>point_x = x, point_y = y\<rparr>" by (cases p) simp
  from assms(3) obtain a b where x: "x = Fin a" "is_binary64 a" and y: "y = Fin b" "is_binary64 b"
    unfolding finite_point_def p by (cases x; cases y) simp_all
  show ?thesis
    using assms(1,2) x y
    by (simp add: rotated_point_def p Point_def f_sub_def to_float_binary64)
qed

lemma plot_cases:
  "(case plot img world p g of Inl e \<Rightarrow> Inl e | Inr (img', g') \<Rightarrow> Inr (img', g')) = plot img world p g"
  by (simp split: sum.splits prod.splits)

lemma symmetry_loop_1:
  assumes "lib_cos lm 0 = 1" and "lib_sin lm 0 = 0" and "finite_point p"
  shows "symmetry_loop lm img world p 1 [0 .. 1 - 1] g = plot img world p g"
  using rotated_point_0 [OF assms]
  by (simp add: rotation_angle_0_1 upto.simps split: sum.splits prod.splits)

lemma random_choice_member:
  "random_choice xs g = Inr (t, g') \<Longrightarrow> t \<in> set xs"
  by (auto simp: random_choice_def split: if_splits)

lemma iterate_symmetry_1:
  assumes "lib_cos lm 0 = 1" and "lib_sin lm 0 = 0" and "list_all preserves_finite ts"
    and "finite_point p"
  shows "iterate lm world ts 1 k img p g = iterate_unrotated world ts k img p g"
  using assms(4)
proof (induction k arbitrary: img p g)
  case 0
  show ?case by simp
next
  case (Suc k)
  show ?case
  proof (cases "random_choice ts g")
    case (Inl e)
    then show ?thesis by simp
  next
    case (Inr r)
    obtain t g1 where r: "r = (t, g1)" by (cases r)
    from Inr r have "t \<in> set ts" by (auto intro: random_choice_member)
    with assms(3) have pf: "preserves_finite t" by (simp add: list_all_iff)
    show ?thesis
    proof (cases "t p")
      case (Inl e)
      with Inr r show ?thesis by simp
    next
      case tp: (Inr p')
      from pf Suc.prems tp have fp: "finite_point p'" by (auto simp: preserves_finite_def)
      have sl: "symmetry_loop lm img world p' 1 [0 .. 1 - 1] g1 = plot img world p' g1"
        by (rule symmetry_loop_1 [OF assms(1,2) fp])
      show ?thesis
      proof (cases "plot img world p' g1")
        case (Inl e)
        with Inr r tp sl show ?thesis by simp
      next
        case pl: (Inr s)
        obtain img' g2 where s: "s = (img', g2)" by (cases s)
        from Suc.IH [OF fp] Inr r tp sl pl s show ?thesis by simp
      qed
    qed
  qed
qed

lemma sample_loop_symmetry_1:
  assumes "lib_cos lm 0 = 1" and "lib_sin lm 0 = 0" and "list_all preserves_finite ts"
    and "start_points_finite world"
  shows "sample_loop lm world ts iters 1 n img g = sample_loop_unrotated world ts iters n img g"
proof (induction n arbitrary: img g)
  case 0
  show ?case by simp
next
  case (Suc n)
  obtain p g1 where r: "random_point_in_rect world g = (p, g1)" by (cases "random_point_in_rect world g")
  with assms(4) have fp: "finite_point p" unfolding start_points_finite_def by (metis fst_conv)
  have it: "iterate lm world ts 1 (nat iters) img p g1 = iterate_unrotated world ts (nat iters) img p g1"
    by (rule iterate_symmetry_1 [OF assms(1,2,3) fp])
  show ?case using r it Suc.IH by (simp split: sum.splits prod.splits)
qed

text \<open>
  The restriction to finite points is needed. On a point with an infinite coordinate the
  rotation by the angle zero is not the identity, since \<open>inf * 0.0\<close> is NaN, and the
  exception that the mapping raises changes with it.
\<close>

lemma rotated_point_infinite:
  assumes "lib_cos lm 0 = 1" and "lib_sin lm 0 = 0"
  shows "rotated_point lm (Point (Fin 0) PInf) (Fin 0) = Inr (Point NaN PInf) \<and>
         map_to_pixel main_world (Point NaN PInf) (FractalImage 8 8) = Inl ValueError \<and>
         map_to_pixel main_world (Point (Fin 0) PInf) (FractalImage 8 8) = Inl OverflowError"
proof -
  have "pixel_index NaN (Fin (- (3 / 2))) (Fin 3) 8 = Inl ValueError"
    by (simp add: pixel_index_def f_sub_def float_of_int_small)
  moreover have "pixel_index (Fin 0) (Fin (- (3 / 2))) (Fin 3) 8 = Inr 4"
    by (simp add: pixel_index_def f_sub_def float_of_int_small py_int_def floor_eq_iff)
  moreover have "pixel_index PInf (Fin (- (3 / 2))) (Fin 3) 8 = Inl OverflowError"
    by (simp add: pixel_index_def f_sub_def float_of_int_small infinity_def)
  ultimately show ?thesis
    using assms
    by (simp add: rotated_point_def map_to_pixel_def main_world_def Rect_def Point_def
        FractalImage_def f_sub_def infinity_def)
qed

text \<open>
  The conditions of the comparison hold of the world of \<open>main\<close> and of \<open>linear\<close>,
  \<open>diamond\<close> and \<open>sinusoidal\<close>, whatever floats the sine of the library returns.
\<close>

lemma finite_float_abs: "finite_float v \<Longrightarrow> finite_float (f_abs v)"
  by (cases v) simp_all

lemma preserves_finite_linear: "preserves_finite linear_transformation"
  by (simp add: preserves_finite_def linear_transformation_def)

lemma preserves_finite_diamond: "preserves_finite diamond"
  by (simp add: preserves_finite_def diamond_def finite_point_def Point_def finite_float_abs)

lemma preserves_finite_sinusoidal:
  assumes "\<And>q. is_binary64 (lib_sin lm q)"
  shows "preserves_finite (sinusoidal lm)"
proof -
  have "finite_point p'" if "finite_point p" and "sinusoidal lm p = Inr p'" for p p'
  proof -
    from that(1) obtain a b where "point_x p = Fin a" "point_y p = Fin b"
      unfolding finite_point_def by (cases "point_x p"; cases "point_y p") simp_all
    with that(2) assms show ?thesis
      by (auto simp: sinusoidal_def finite_point_def Point_def)
  qed
  then show ?thesis by (auto simp: preserves_finite_def split: sum.splits)
qed

lemma binary64_of_real_binary64: "is_binary64 (binary64_of_real x)"
  by (auto simp: binary64_of_real_def intro: round_double_idem split: option.splits)

lemma sample_libm_0: "lib_cos sample_libm 0 = 1" "lib_sin sample_libm 0 = 0"
  by (simp_all add: sample_libm_def binary64_of_real_def round_double_binary64 b64_examples)

lemma to_float_bounded:
  assumes "\<bar>q\<bar> \<le> of_int M" and "M < 2 ^ 53"
  shows "\<exists>v. to_float q = Fin v \<and> is_binary64 v \<and> \<bar>v\<bar> \<le> of_int M"
proof -
  from round_double_bounded [of "\<bar>q\<bar>" M] assms
  obtain v where v: "round_double \<bar>q\<bar> = Some v" "0 \<le> v" "v \<le> of_int M" by auto
  show ?thesis
  proof (cases "0 \<le> q")
    case True
    with v have "round_double q = Some v" by simp
    with v round_double_idem [of q v] show ?thesis by (simp add: to_float_def)
  next
    case False
    then have "\<bar>q\<bar> = - q" by simp
    with v have "round_double q = Some (- v)"
      using round_double_minus [of q] by (cases "round_double q") simp_all
    with v round_double_idem [of q "- v"] show ?thesis by (simp add: to_float_def)
  qed
qed

lemma random_random_range:
  "\<exists>u. fst (random_random g) = Fin u \<and> 0 \<le> u \<and> u < 1"
proof -
  define k where "k = rng_words g (rng_fpos g) mod 2 ^ 53"
  have "k < 2 ^ 53" by (simp add: k_def)
  then have "(of_nat k :: rat) < of_nat (2 ^ 53)" by (simp only: of_nat_less_iff)
  then have "(of_nat k :: rat) / 2 ^ 53 < 1" by simp
  moreover have "0 \<le> (of_nat k :: rat) / 2 ^ 53" by simp
  moreover have "fst (random_random g) = Fin (of_nat k / 2 ^ 53)"
    by (simp add: random_random_def k_def)
  ultimately show ?thesis by blast
qed

lemma main_world_coordinate:
  assumes "0 \<le> u" and "u < 1"
  shows "finite_float (f_add (Fin (- (3 / 2))) (f_mul (f_sub (f_add (Fin (- (3 / 2))) (Fin 3)) (Fin (- (3 / 2)))) (Fin u)))"
proof -
  have "f_sub (f_add (Fin (- (3 / 2))) (Fin 3)) (Fin (- (3 / 2))) = Fin 3"
    by (simp add: f_sub_def)
  moreover from assms have "\<bar>3 * u\<bar> \<le> of_int 3" by simp
  with to_float_bounded [of "3 * u" 3] obtain v
    where v: "to_float (3 * u) = Fin v" "is_binary64 v" "\<bar>v\<bar> \<le> 3" by auto
  have r: "round_double (3 * u) = Some v \<Longrightarrow> 0 \<le> v"
    using round_double_bounded [of "3 * u" 3] assms by auto
  from v(1) have "round_double (3 * u) = Some v"
    by (simp add: to_float_def split: option.splits if_splits)
  with r have "0 \<le> v" by simp
  with v(3) have "\<bar>- (3 / 2) + v\<bar> \<le> of_int 2" by simp
  with to_float_bounded [of "- (3 / 2) + v" 2] obtain w
    where "to_float (- (3 / 2) + v) = Fin w" "is_binary64 w" by auto
  ultimately show ?thesis using v(1) by simp
qed

lemma start_points_finite_main_world: "start_points_finite main_world"
proof -
  have "finite_point (fst (random_point_in_rect main_world g))" for g
  proof -
    obtain u g1 where r1: "random_random g = (Fin u, g1)" and u: "0 \<le> u" "u < 1"
      using random_random_range [of g] by (cases "random_random g") auto
    obtain u' g2 where r2: "random_random g1 = (Fin u', g2)" and u': "0 \<le> u'" "u' < 1"
      using random_random_range [of g1] by (cases "random_random g1") auto
    from main_world_coordinate [OF u] main_world_coordinate [OF u'] r1 r2 show ?thesis
      by (simp add: random_point_in_rect_def random_uniform_def main_world_def Rect_def
          finite_point_def Point_def del: f_add.simps f_mul.simps)
  qed
  then show ?thesis by (simp add: start_points_finite_def)
qed

text \<open>
  C10. For \<open>symmetry = 1\<close> the single angle is the float zero and the rotation step, in
  float arithmetic with each product and sum rounded, returns every finite point as it
  is. So, as long as the transformations keep the trajectory finite, \<open>generate_fractal\<close>
  with \<open>symmetry = 1\<close> is the sampling loop with the rotation step removed: the same
  image and the same random state at the end, or the same exception.
\<close>

theorem generate_fractal_symmetry_1:
  assumes "lib_cos lm 0 = 1" and "lib_sin lm 0 = 0"
    and "list_all preserves_finite transformations" and "start_points_finite world"
  shows "rotation_angle 0 1 = Inr (Fin 0) \<and>
         (\<forall>p. finite_point p \<longrightarrow> rotated_point lm p (Fin 0) = Inr p) \<and>
         generate_fractal lm img world transformations samples iter_per_sample 1 g =
           generate_fractal_unrotated img world transformations samples iter_per_sample g"
  using rotation_angle_0_1 rotated_point_0 [OF assms(1,2)] sample_loop_symmetry_1 [OF assms]
  by (simp add: generate_fractal_def generate_fractal_unrotated_def)

theorem generate_fractal_symmetry_1_witness:
  "lib_cos sample_libm 0 = 1 \<and> lib_sin sample_libm 0 = 0 \<and>
   list_all preserves_finite [linear_transformation, diamond, sinusoidal sample_libm] \<and>
   start_points_finite main_world \<and>
   rotated_point sample_libm (Point (Fin (1 / 2)) (Fin (- (3 / 16)))) (Fin 0) =
     Inr (Point (Fin (1 / 2)) (Fin (- (3 / 16)))) \<and>
   generate_fractal sample_libm (FractalImage 4 4) main_world
       [linear_transformation, diamond, sinusoidal sample_libm] 2 3 1
       \<lparr>rng_words = (\<lambda>n. 2 ^ 50 * (2 * n + 1)), rng_ints = (\<lambda>n. n), rng_fpos = 0, rng_ipos = 0\<rparr> =
     generate_fractal_unrotated (FractalImage 4 4) main_world
       [linear_transformation, diamond, sinusoidal sample_libm] 2 3
       \<lparr>rng_words = (\<lambda>n. 2 ^ 50 * (2 * n + 1)), rng_ints = (\<lambda>n. n), rng_fpos = 0, rng_ipos = 0\<rparr>"
proof -
  have b: "\<And>q. is_binary64 (lib_sin sample_libm q)"
    by (simp add: sample_libm_def binary64_of_real_binary64)
  have l: "list_all preserves_finite [linear_transformation, diamond, sinusoidal sample_libm]"
    by (simp add: preserves_finite_linear preserves_finite_diamond preserves_finite_sinusoidal [OF b])
  have f: "finite_point (Point (Fin (1 / 2)) (Fin (- (3 / 16))))"
    using is_binary64_fraction [of 1 1] is_binary64_fraction [of 3 4]
    by (simp add: finite_point_def Point_def)
  from generate_fractal_symmetry_1 [OF sample_libm_0 l start_points_finite_main_world] f
    sample_libm_0 l start_points_finite_main_world
  show ?thesis by simp
qed

end
